theory Spec2Isabelle
  imports Main "HOL-Library.Sublist"
begin

section \<open>The declared topology (class FaucetTopo)\<close>

text \<open>
  \<^verbatim>\<open>FaucetTopo.__init__\<close> declares nodes and links through the methods
  \<^verbatim>\<open>addSwitch\<close>, \<^verbatim>\<open>addNode\<close>, \<^verbatim>\<open>addHost\<close> and \<^verbatim>\<open>addLink\<close> of the
  emulation library's \<^verbatim>\<open>Topo\<close>. The topology is the record of these declarations, in
  the order they are made. A keyword argument that a call does not pass is \<open>None\<close>.
\<close>

datatype node_kind = Switch | Node | Host

record node_decl =
  node_name :: string
  kind :: node_kind
  ip :: "string option"
  inNamespace :: "bool option"
  protocols :: "string option"
  dpid :: "string option"

record link_decl =
  node1 :: string
  node2 :: string
  intfName1 :: "string option"
  intfName2 :: "string option"

record topo =
  nodes :: "node_decl list"
  links :: "link_decl list"

definition Topo_init :: topo where
  "Topo_init = \<lparr>nodes = [], links = []\<rparr>"

text \<open>\<^verbatim>\<open>self.addSwitch(name, protocols=..., dpid=...)\<close>; the method returns the name.\<close>

definition addSwitch :: "string \<Rightarrow> string \<Rightarrow> string \<Rightarrow> topo \<Rightarrow> string \<times> topo" where
  "addSwitch n protos dp t =
     (n, t\<lparr>nodes := nodes t @
        [\<lparr>node_name = n, kind = Switch, ip = None, inNamespace = None,
          protocols = Some protos, dpid = Some dp\<rparr>]\<rparr>)"

text \<open>\<^verbatim>\<open>self.addNode(name, ip=..., [inNamespace=...])\<close>.\<close>

definition addNode :: "string \<Rightarrow> string \<Rightarrow> bool option \<Rightarrow> topo \<Rightarrow> string \<times> topo" where
  "addNode n addr ns t =
     (n, t\<lparr>nodes := nodes t @
        [\<lparr>node_name = n, kind = Node, ip = Some addr, inNamespace = ns,
          protocols = None, dpid = None\<rparr>]\<rparr>)"

text \<open>\<^verbatim>\<open>self.addHost(name, ip=...)\<close>.\<close>

definition addHost :: "string \<Rightarrow> string \<Rightarrow> topo \<Rightarrow> string \<times> topo" where
  "addHost n addr t =
     (n, t\<lparr>nodes := nodes t @
        [\<lparr>node_name = n, kind = Host, ip = Some addr, inNamespace = None,
          protocols = None, dpid = None\<rparr>]\<rparr>)"

text \<open>\<^verbatim>\<open>self.addLink(a, b, intfName1=..., intfName2=...)\<close>; the result is not used.\<close>

definition addLink :: "string \<Rightarrow> string \<Rightarrow> string \<Rightarrow> string \<Rightarrow> topo \<Rightarrow> topo" where
  "addLink a b i1 i2 t =
     t\<lparr>links := links t @
        [\<lparr>node1 = a, node2 = b, intfName1 = Some i1, intfName2 = Some i2\<rparr>]\<rparr>"

definition FaucetTopo_init :: topo where
  "FaucetTopo_init =
     (let t = Topo_init;
          (phy_sw, t) = addSwitch ''sw1'' ''OpenFlow13'' ''1'' t;
          (nfv_sw, t) = addSwitch ''sw2'' ''OpenFlow13'' ''2'' t;
          (faucet, t) = addNode ''faucet'' ''0.0.0.0'' None t;
          (dhcp_nfv, t) = addNode ''dhcp'' ''10.0.0.254'' (Some True) t;
          (nat_nfv, t) = addNode ''nat'' ''10.0.0.1'' (Some True) t;
          (ids_nfv, t) = addNode ''ids'' ''0.0.0.0'' (Some True) t;
          (h1, t) = addHost ''h1'' ''0.0.0.0'' t;
          (h2, t) = addHost ''h2'' ''0.0.0.0'' t;
          t = addLink phy_sw h1 ''port-1'' ''eth0'' t;
          t = addLink phy_sw h2 ''port-2'' ''eth0'' t;
          t = addLink phy_sw nfv_sw ''port-3'' ''eth1'' t;
          t = addLink phy_sw faucet ''port-4'' ''eth4'' t;
          t = addLink nfv_sw dhcp_nfv ''int2'' ''dhcp-eth0'' t;
          t = addLink nfv_sw nat_nfv ''int3'' ''nat-eth0'' t;
          t = addLink nfv_sw ids_nfv ''int4'' ''ids-eth0'' t;
          t = addLink faucet nfv_sw ''eth2'' ''eth0'' t
      in t)"

subsection \<open>Reading the declarations\<close>

text \<open>
  The four roles of the topology, told apart by how the node is declared: a switch by
  \<^verbatim>\<open>addSwitch\<close>, a test host by \<^verbatim>\<open>addHost\<close>, a network-function node by
  \<^verbatim>\<open>addNode\<close> with \<^verbatim>\<open>inNamespace=True\<close>, and the controller node by \<^verbatim>\<open>addNode\<close>
  without the namespace flag (it runs in the root namespace).
\<close>

definition is_switch :: "node_decl \<Rightarrow> bool" where
  "is_switch n = (kind n = Switch)"

definition is_host :: "node_decl \<Rightarrow> bool" where
  "is_host n = (kind n = Host)"

definition is_nfv :: "node_decl \<Rightarrow> bool" where
  "is_nfv n = (kind n = Node \<and> inNamespace n = Some True)"

definition is_controller :: "node_decl \<Rightarrow> bool" where
  "is_controller n = (kind n = Node \<and> inNamespace n \<noteq> Some True)"

definition names_where :: "(node_decl \<Rightarrow> bool) \<Rightarrow> topo \<Rightarrow> string list" where
  "names_where P t = map node_name (filter P (nodes t))"

definition named_on_both_ends :: "link_decl \<Rightarrow> bool" where
  "named_on_both_ends l = (intfName1 l \<noteq> None \<and> intfName2 l \<noteq> None)"

definition point_to_point :: "link_decl \<Rightarrow> bool" where
  "point_to_point l = (node1 l \<noteq> node2 l)"

text \<open>The (node, interface name) endpoints the link declarations create, in order.\<close>

definition endpoints :: "topo \<Rightarrow> (string \<times> string option) list" where
  "endpoints t = concat (map (\<lambda>l. [(node1 l, intfName1 l), (node2 l, intfName2 l)]) (links t))"

definition intf_names_of :: "string \<Rightarrow> topo \<Rightarrow> string option list" where
  "intf_names_of n t = map snd (filter (\<lambda>e. fst e = n) (endpoints t))"

definition placeholder_ip :: string where
  "placeholder_ip = ''0.0.0.0''"

definition has_static_ip :: "node_decl \<Rightarrow> bool" where
  "has_static_ip n = (case ip n of None \<Rightarrow> False | Some a \<Rightarrow> a \<noteq> placeholder_ip)"

definition has_placeholder_ip :: "node_decl \<Rightarrow> bool" where
  "has_placeholder_ip n = (ip n = Some placeholder_ip)"

definition namespaced_non_switch :: "node_decl \<Rightarrow> bool" where
  "namespaced_non_switch n = (kind n \<noteq> Switch \<and> inNamespace n = Some True)"

section \<open>The provisioning script (function run)\<close>

subsection \<open>External calls, the environment and the log of an execution\<close>

text \<open>
  Everything \<^verbatim>\<open>run\<close> does is a call into the emulation library or the operating
  system. Each such call is an \<open>action\<close>; node handles obtained with \<^verbatim>\<open>net.get(name)\<close>
  are represented by the node's name. The environment answers an action with the text
  the call returns and moves to a new world; the script reads the text only where the
  source does (the conditions of its \<^verbatim>\<open>while\<close> statements). A state records the
  world and, oldest first, every action performed with the answer it got. The script
  raises nothing itself and catches nothing; a library call that raises or does not
  return is outside the model.
\<close>

datatype action =
    NetStart
  | Info string
  | Sleep nat
  | QuietRun string
  | NodeCmd string string
  | Intf string string
  | CLI
  | DelIntf string string
  | LinkStop link_decl
  | HostStop string bool
  | HostTerminate string
  | NetStop

type_synonym 'w env = "'w \<Rightarrow> action \<Rightarrow> string \<times> 'w"

record 'w state =
  world :: 'w
  trace :: "(action \<times> string) list"

definition actions :: "'w state \<Rightarrow> action list" where
  "actions s = map fst (trace s)"

definition exec :: "'w env \<Rightarrow> action \<Rightarrow> 'w state \<Rightarrow> string \<times> 'w state" where
  "exec env a s =
     (let (out, w') = env (world s) a
      in (out, \<lparr>world = w', trace = trace s @ [(a, out)]\<rparr>))"

definition perform :: "'w env \<Rightarrow> action \<Rightarrow> 'w state \<Rightarrow> 'w state" where
  "perform env a s = snd (exec env a s)"

fun perform_all :: "'w env \<Rightarrow> action list \<Rightarrow> 'w state \<Rightarrow> 'w state" where
  "perform_all env [] s = s"
| "perform_all env (a # as) s = perform_all env as (perform env a s)"

fun for_each :: "('a \<Rightarrow> 's \<Rightarrow> 's) \<Rightarrow> 'a list \<Rightarrow> 's \<Rightarrow> 's" where
  "for_each f [] s = s"
| "for_each f (x # xs) s = for_each f xs (f x s)"

text \<open>Python's \<^verbatim>\<open>needle in text\<close> on strings: \<open>needle\<close> occurs as a contiguous part.\<close>

fun py_in :: "string \<Rightarrow> string \<Rightarrow> bool" where
  "py_in m [] = (m = [])"
| "py_in m (c # cs) = (prefix m (c # cs) \<or> py_in m cs)"

text \<open>The newline of the log messages, and \<^verbatim>\<open>'%i' % n\<close> for a length.\<close>

definition nl :: string where
  "nl = [CHR 0x0A]"

definition digit_char :: "nat \<Rightarrow> char" where
  "digit_char d = ''0123456789'' ! d"

function str_of_nat :: "nat \<Rightarrow> string" where
  "str_of_nat n =
     (if n < 10 then [digit_char n] else str_of_nat (n div 10) @ [digit_char (n mod 10)])"
  by pat_completeness auto
termination
  by (relation "measure id") auto

subsection \<open>Polling loops\<close>

text \<open>
  Each \<^verbatim>\<open>while marker not in probe(): body\<close> of the source has no bound. The model
  counts the iterations of the body with fuel: \<open>Finished\<close> is the state in which the
  loop has exited, \<open>Exhausted\<close> the state of a loop that has polled \<open>fuel + 1\<close> times
  without seeing the marker and is still running. A loop that is \<open>Exhausted\<close> for every
  amount of fuel never exits. Every loop of one execution gets the same amount.
\<close>

datatype 'w outcome = Finished "'w state" | Exhausted "'w state"

fun state_of :: "'w outcome \<Rightarrow> 'w state" where
  "state_of (Finished s) = s"
| "state_of (Exhausted s) = s"

fun is_Finished :: "'w outcome \<Rightarrow> bool" where
  "is_Finished (Finished s) = True"
| "is_Finished (Exhausted s) = False"

record poll =
  marker :: string
  probe :: action
  body :: "action list"

fun while_not_in :: "nat \<Rightarrow> 'w env \<Rightarrow> poll \<Rightarrow> 'w state \<Rightarrow> 'w outcome" where
  "while_not_in 0 env p s =
     (let (out, s1) = exec env (probe p) s
      in if py_in (marker p) out then Finished s1 else Exhausted s1)"
| "while_not_in (Suc n) env p s =
     (let (out, s1) = exec env (probe p) s
      in if py_in (marker p) out then Finished s1
         else while_not_in n env p (perform_all env (body p) s1))"

text \<open>Lines 93-96, 100-102, 108-111, 117-120 and 125-128 of the source.\<close>

definition faucet_poll :: poll where
  "faucet_poll =
     \<lparr>marker = ''(running)'', probe = QuietRun ''service faucet status'',
      body = [Sleep 1, Info ''.'', QuietRun ''service faucet start'']\<rparr>"

definition connected_poll :: poll where
  "connected_poll =
     \<lparr>marker = ''is_connected'', probe = QuietRun ''ovs-vsctl show'',
      body = [Sleep 1, Info ''.'']\<rparr>"

definition dnsmasq_poll :: poll where
  "dnsmasq_poll =
     \<lparr>marker = ''0.0.0.0:67'', probe = NodeCmd ''dhcp'' ''netstat -an | grep 67'',
      body = [Sleep 2, Info ''.'', NodeCmd ''dhcp'' ''/usr/sbin/dnsmasq'']\<rparr>"

definition lease_poll :: "string \<Rightarrow> poll" where
  "lease_poll h =
     \<lparr>marker = ''10.0.0'', probe = NodeCmd h ''ip addr show eth0 | grep -o 10.0.0.[0-9]'',
      body = [Sleep 3, Info ''.'', NodeCmd h ''/sbin/udhcpc -nq -t 3 -i eth0'']\<rparr>"

subsection \<open>The steps of run, in the order of the source\<close>

text \<open>
  A step maps a state to an outcome; \<open>seq\<close> runs steps in order and stops at the first
  one whose loop is still running. \<open>straight\<close> is a step without a loop.
\<close>

fun seq :: "('w state \<Rightarrow> 'w outcome) list \<Rightarrow> 'w state \<Rightarrow> 'w outcome" where
  "seq [] s = Finished s"
| "seq (ph # phs) s = (case ph s of Finished s' \<Rightarrow> seq phs s' | Exhausted s' \<Rightarrow> Exhausted s')"

definition straight :: "('w state \<Rightarrow> 'w state) \<Rightarrow> 'w state \<Rightarrow> 'w outcome" where
  "straight f s = Finished (f s)"

text \<open>
  \<^verbatim>\<open>info(before); while ...; info(after)\<close>: the shape shared by the five waits.
\<close>

definition wait_for :: "string \<Rightarrow> poll \<Rightarrow> string \<Rightarrow> nat \<Rightarrow> 'w env \<Rightarrow> 'w state \<Rightarrow> 'w outcome" where
  "wait_for before p after fuel env s =
     (case while_not_in fuel env p (perform env (Info before) s) of
        Finished s' \<Rightarrow> Finished (perform env (Info after) s')
      | Exhausted s' \<Rightarrow> Exhausted s')"

text \<open>Lines 80-83: \<^verbatim>\<open>net.start()\<close> and the first message.\<close>

definition start_network :: "'w env \<Rightarrow> 'w state \<Rightarrow> 'w state" where
  "start_network env =
     perform_all env [NetStart, Info (''*** Provisioning all mininet hosts'' @ nl)]"

text \<open>Lines 84-90.\<close>

definition set_controllers :: "'w env \<Rightarrow> 'w state \<Rightarrow> 'w state" where
  "set_controllers env =
     perform_all env
       [NodeCmd ''sw1'' ''ovs-vsctl set-controller sw1 tcp:127.0.0.1:6633'',
        NodeCmd ''sw2'' ''ovs-vsctl set-controller sw2 tcp:127.0.0.1:6633'']"

text \<open>Lines 92-97.\<close>

definition check_faucet :: "nat \<Rightarrow> 'w env \<Rightarrow> 'w state \<Rightarrow> 'w outcome" where
  "check_faucet =
     wait_for ''*** Checking Faucet status'' faucet_poll (''...running'' @ nl)"

text \<open>Lines 99-103.\<close>

definition wait_connected :: "nat \<Rightarrow> 'w env \<Rightarrow> 'w state \<Rightarrow> 'w outcome" where
  "wait_connected =
     wait_for ''*** Waiting for switch to connect to controller'' connected_poll
       (''...connected'' @ nl)"

text \<open>Lines 105-112.\<close>

definition check_dnsmasq :: "nat \<Rightarrow> 'w env \<Rightarrow> 'w state \<Rightarrow> 'w outcome" where
  "check_dnsmasq =
     wait_for ''*** Checking dnsmasq running in DHCP NFV'' dnsmasq_poll (''...started'' @ nl)"

text \<open>Lines 115-121 with \<open>h = h1\<close> and lines 123-129 with \<open>h = h2\<close>.\<close>

definition wait_lease :: "string \<Rightarrow> nat \<Rightarrow> 'w env \<Rightarrow> 'w state \<Rightarrow> 'w outcome" where
  "wait_lease h =
     wait_for (''*** Waiting for '' @ h @ '' to get DHCP IP address'') (lease_poll h)
       (''...got IP'' @ nl)"

text \<open>
  Lines 131-144, with the module constant \<^verbatim>\<open>EXT_INT\<close> as the parameter \<open>ext_int\<close>. The
  \<^verbatim>\<open>dhclient\<close> command of line 136 is the literal text of the source.
\<close>

definition nat_setup :: "string \<Rightarrow> 'w env \<Rightarrow> 'w state \<Rightarrow> 'w state" where
  "nat_setup ext_int env =
     perform_all env
       [Info ''*** Moving bridged interface into the NAT NFV..'',
        Intf ext_int ''nat'',
        Sleep 1,
        NodeCmd ''nat'' ''/sbin/dhclient enp0s9'',
        Info (''...done'' @ nl),
        Info ''*** Enabling IP forwarding and Masquerading on NAT NFV.. '',
        NodeCmd ''nat'' ''/sbin/ifconfig lo:1 1.1.1.1/24'',
        NodeCmd ''nat'' ''/sbin/ifconfig lo:1 1111::1/64'',
        NodeCmd ''nat''
          (''/sbin/iptables -t nat -A POSTROUTING -o '' @ ext_int @ '' -j MASQUERADE''),
        NodeCmd ''nat'' ''/sbin/sysctl -q -w net.ipv4.ip_forward=1'',
        Info (''...done'' @ nl)]"

text \<open>
  The network object that \<^verbatim>\<open>Mininet(topo=topo, controller=None)\<close> builds: the script
  reads its lists of links and of hosts. The constructor belongs to the emulation
  library, so \<open>run\<close> takes it as a parameter.
\<close>

record net =
  net_links :: "link_decl list"
  net_hosts :: "string list"

text \<open>Lines 148-162.\<close>

definition teardown :: "string \<Rightarrow> net \<Rightarrow> 'w env \<Rightarrow> 'w state \<Rightarrow> 'w state" where
  "teardown ext_int nt env s =
     (let s = perform env (DelIntf ''nat'' ext_int) s;
          s = perform env
                (Info (''*** Stopping '' @ str_of_nat (length (net_links nt)) @ '' links:'')) s;
          s = for_each (\<lambda>link. perform_all env [Info ''.'', LinkStop link]) (net_links nt) s;
          s = perform env (Info nl) s;
          s = perform env
                (Info (''*** Stopping '' @ str_of_nat (length (net_hosts nt)) @ '' hosts: '')) s;
          s = for_each
                (\<lambda>host. perform_all env
                   [Info (host @ '' ''), HostStop host True, HostTerminate host])
                (net_hosts nt) s;
          s = perform env (Info (''...done'' @ nl)) s
      in perform env NetStop s)"

definition EXT_INT :: string where
  "EXT_INT = ''enp0s9''"

definition run_with ::
  "string \<Rightarrow> (topo \<Rightarrow> net) \<Rightarrow> nat \<Rightarrow> 'w env \<Rightarrow> 'w \<Rightarrow> 'w outcome" where
  "run_with ext_int mininet fuel env w =
     (let tp = FaucetTopo_init;
          nt = mininet tp
      in seq
           [straight (start_network env),
            straight (set_controllers env),
            check_faucet fuel env,
            wait_connected fuel env,
            check_dnsmasq fuel env,
            wait_lease ''h1'' fuel env,
            wait_lease ''h2'' fuel env,
            straight (nat_setup ext_int env),
            straight (perform env CLI),
            straight (teardown ext_int nt env)]
           \<lparr>world = w, trace = []\<rparr>)"

definition run :: "(topo \<Rightarrow> net) \<Rightarrow> nat \<Rightarrow> 'w env \<Rightarrow> 'w \<Rightarrow> 'w outcome" where
  "run = run_with EXT_INT"

section \<open>Reading an execution\<close>

subsection \<open>The rounds of a polling loop\<close>

text \<open>
  The state at the start of round \<open>k\<close> of a loop entered in state \<open>s\<close>, when the
  first \<open>k\<close> polls did not show the marker: \<open>k\<close> times a poll followed by the body.
  \<open>observation\<close> is the text that poll number \<open>k\<close> (counted from 0) returns, and
  \<open>after_poll\<close> the state right after that poll.
\<close>

fun nth_round :: "'w env \<Rightarrow> poll \<Rightarrow> nat \<Rightarrow> 'w state \<Rightarrow> 'w state" where
  "nth_round env p 0 s = s"
| "nth_round env p (Suc k) s =
     nth_round env p k (perform_all env (body p) (perform env (probe p) s))"

definition observation :: "'w env \<Rightarrow> poll \<Rightarrow> nat \<Rightarrow> 'w state \<Rightarrow> string" where
  "observation env p k s = fst (exec env (probe p) (nth_round env p k s))"

definition after_poll :: "'w env \<Rightarrow> poll \<Rightarrow> nat \<Rightarrow> 'w state \<Rightarrow> 'w state" where
  "after_poll env p k s = perform env (probe p) (nth_round env p k s)"

subsection \<open>The polling steps and the kinds of action\<close>

text \<open>
  The five \<^verbatim>\<open>while\<close> statements of \<^verbatim>\<open>run\<close>, in order, and the four of them whose body
  ends with a command, paired with that command.
\<close>

definition polling_steps :: "poll list" where
  "polling_steps = [faucet_poll, connected_poll, dnsmasq_poll, lease_poll ''h1'', lease_poll ''h2'']"

definition retrying_steps :: "(poll \<times> action) list" where
  "retrying_steps =
     [(faucet_poll, QuietRun ''service faucet start''),
      (dnsmasq_poll, NodeCmd ''dhcp'' ''/usr/sbin/dnsmasq''),
      (lease_poll ''h1'', NodeCmd ''h1'' ''/sbin/udhcpc -nq -t 3 -i eth0''),
      (lease_poll ''h2'', NodeCmd ''h2'' ''/sbin/udhcpc -nq -t 3 -i eth0'')]"

text \<open>
  Kinds of action: the probe of a polling step; one of the two \<^verbatim>\<open>set-controller\<close>
  commands of lines 89-90; any command (\<^verbatim>\<open>quietRun\<close> or \<^verbatim>\<open>node.cmd\<close>); the actions of
  the teardown; a \<^verbatim>\<open>dhclient\<close> command; the creation of an interface.
\<close>

definition is_poll :: "action \<Rightarrow> bool" where
  "is_poll a = (a \<in> set (map probe polling_steps))"

definition is_set_controller :: "action \<Rightarrow> bool" where
  "is_set_controller a =
     (a = NodeCmd ''sw1'' ''ovs-vsctl set-controller sw1 tcp:127.0.0.1:6633'' \<or>
      a = NodeCmd ''sw2'' ''ovs-vsctl set-controller sw2 tcp:127.0.0.1:6633'')"

fun is_command :: "action \<Rightarrow> bool" where
  "is_command (QuietRun c) = True"
| "is_command (NodeCmd n c) = True"
| "is_command a = False"

fun is_link_stop :: "action \<Rightarrow> bool" where
  "is_link_stop (LinkStop l) = True"
| "is_link_stop a = False"

fun is_host_stop :: "action \<Rightarrow> bool" where
  "is_host_stop (HostStop h d) = True"
| "is_host_stop (HostTerminate h) = True"
| "is_host_stop a = False"

fun is_del_intf :: "action \<Rightarrow> bool" where
  "is_del_intf (DelIntf n i) = True"
| "is_del_intf a = False"

fun is_teardown :: "action \<Rightarrow> bool" where
  "is_teardown (DelIntf n i) = True"
| "is_teardown (LinkStop l) = True"
| "is_teardown (HostStop h d) = True"
| "is_teardown (HostTerminate h) = True"
| "is_teardown NetStop = True"
| "is_teardown a = False"

fun is_dhclient :: "action \<Rightarrow> bool" where
  "is_dhclient (NodeCmd n c) = prefix ''/sbin/dhclient'' c"
| "is_dhclient a = False"

fun is_attach :: "action \<Rightarrow> bool" where
  "is_attach (Intf i n) = True"
| "is_attach a = False"

subsection \<open>Order and retry properties of a sequence of actions\<close>

text \<open>
  \<open>all_before P Q xs\<close>: every \<open>P\<close> action of \<open>xs\<close> stands strictly before every \<open>Q\<close>
  action (no \<open>P\<close> occurs at or after a \<open>Q\<close>).
\<close>

fun all_before :: "('a \<Rightarrow> bool) \<Rightarrow> ('a \<Rightarrow> bool) \<Rightarrow> 'a list \<Rightarrow> bool" where
  "all_before P Q [] = True"
| "all_before P Q (x # xs) =
     ((if Q x then \<not> list_ex P (x # xs) else True) \<and> all_before P Q xs)"

text \<open>
  \<open>retried_between pr A xs\<close>: whenever \<open>pr\<close> occurs in \<open>xs\<close> and occurs again later, an
  action satisfying \<open>A\<close> stands between that occurrence and the next one.
\<close>

fun retried_between :: "'a \<Rightarrow> ('a \<Rightarrow> bool) \<Rightarrow> 'a list \<Rightarrow> bool" where
  "retried_between pr A [] = True"
| "retried_between pr A (x # xs) =
     ((if x = pr \<and> pr \<in> set xs then list_ex A (takeWhile (\<lambda>y. y \<noteq> pr) xs) else True) \<and>
      retried_between pr A xs)"

text \<open>
  \<open>only R ph\<close>: the step \<open>ph\<close> keeps the actions performed so far and adds only
  actions that satisfy \<open>R\<close>.
\<close>

definition only :: "(action \<Rightarrow> bool) \<Rightarrow> ('w state \<Rightarrow> 'w outcome) \<Rightarrow> bool" where
  "only R ph = (\<forall>s. \<exists>ys. actions (state_of (ph s)) = actions s @ ys \<and> list_all R ys)"

subsection \<open>The exit condition of the lease wait, as the specification words it\<close>


subsection \<open>Concrete environments\<close>

text \<open>
  Environments for concrete executions. \<open>answering out\<close> returns \<open>out\<close> for every
  command and the empty text for every other call. \<open>flaky\<close> counts the polls in its
  world: a poll returns the empty text when the count is even and a text with all four
  markers when it is odd, so every loop of one execution sees its marker on the second
  poll. \<open>Mininet_build\<close> is a network with one link per declared link and one host per
  node that is not a switch, in the order of declaration.
\<close>

definition all_ready :: string where
  "all_ready = ''(running) is_connected 0.0.0.0:67 10.0.0.5''"

definition answering :: "string \<Rightarrow> unit env" where
  "answering out = (\<lambda>w a. (if is_command a then out else [], w))"

definition flaky :: "nat env" where
  "flaky =
     (\<lambda>w a. if is_poll a then (if even w then [] else all_ready, Suc w)
            else (if is_command a then all_ready else [], w))"

definition Mininet_build :: "topo \<Rightarrow> net" where
  "Mininet_build t =
     \<lparr>net_links = links t,
      net_hosts = map node_name (filter (\<lambda>n. kind n \<noteq> Switch) (nodes t))\<rparr>"

section \<open>Properties of the topology\<close>

lemma FaucetTopo_nodes:
  "nodes FaucetTopo_init =
     [\<lparr>node_name = ''sw1'', kind = Switch, ip = None, inNamespace = None,
        protocols = Some ''OpenFlow13'', dpid = Some ''1''\<rparr>,
      \<lparr>node_name = ''sw2'', kind = Switch, ip = None, inNamespace = None,
        protocols = Some ''OpenFlow13'', dpid = Some ''2''\<rparr>,
      \<lparr>node_name = ''faucet'', kind = Node, ip = Some ''0.0.0.0'', inNamespace = None,
        protocols = None, dpid = None\<rparr>,
      \<lparr>node_name = ''dhcp'', kind = Node, ip = Some ''10.0.0.254'', inNamespace = Some True,
        protocols = None, dpid = None\<rparr>,
      \<lparr>node_name = ''nat'', kind = Node, ip = Some ''10.0.0.1'', inNamespace = Some True,
        protocols = None, dpid = None\<rparr>,
      \<lparr>node_name = ''ids'', kind = Node, ip = Some ''0.0.0.0'', inNamespace = Some True,
        protocols = None, dpid = None\<rparr>,
      \<lparr>node_name = ''h1'', kind = Host, ip = Some ''0.0.0.0'', inNamespace = None,
        protocols = None, dpid = None\<rparr>,
      \<lparr>node_name = ''h2'', kind = Host, ip = Some ''0.0.0.0'', inNamespace = None,
        protocols = None, dpid = None\<rparr>]"
  by (simp add: FaucetTopo_init_def Topo_init_def addSwitch_def addNode_def addHost_def
      addLink_def)

lemma FaucetTopo_links:
  "links FaucetTopo_init =
     [\<lparr>node1 = ''sw1'', node2 = ''h1'', intfName1 = Some ''port-1'', intfName2 = Some ''eth0''\<rparr>,
      \<lparr>node1 = ''sw1'', node2 = ''h2'', intfName1 = Some ''port-2'', intfName2 = Some ''eth0''\<rparr>,
      \<lparr>node1 = ''sw1'', node2 = ''sw2'', intfName1 = Some ''port-3'', intfName2 = Some ''eth1''\<rparr>,
      \<lparr>node1 = ''sw1'', node2 = ''faucet'', intfName1 = Some ''port-4'', intfName2 = Some ''eth4''\<rparr>,
      \<lparr>node1 = ''sw2'', node2 = ''dhcp'', intfName1 = Some ''int2'', intfName2 = Some ''dhcp-eth0''\<rparr>,
      \<lparr>node1 = ''sw2'', node2 = ''nat'', intfName1 = Some ''int3'', intfName2 = Some ''nat-eth0''\<rparr>,
      \<lparr>node1 = ''sw2'', node2 = ''ids'', intfName1 = Some ''int4'', intfName2 = Some ''ids-eth0''\<rparr>,
      \<lparr>node1 = ''faucet'', node2 = ''sw2'', intfName1 = Some ''eth2'', intfName2 = Some ''eth0''\<rparr>]"
  by (simp add: FaucetTopo_init_def Topo_init_def addSwitch_def addNode_def addHost_def
      addLink_def)

lemma distinct_map_filter_fst:
  "distinct xs \<Longrightarrow> distinct (map snd (filter (\<lambda>e. fst e = a) xs))"
  by (induction xs) (auto simp: image_iff)

text \<open>
  C3. The topology builder takes no argument, and what it declares has exactly two
  switches, one controller node, three network-function nodes, two hosts and eight
  links; every link joins two different nodes and names its interface on both ends.
\<close>

theorem topology_counts:
  "length (names_where is_switch FaucetTopo_init) = 2 \<and>
   length (names_where is_controller FaucetTopo_init) = 1 \<and>
   length (names_where is_nfv FaucetTopo_init) = 3 \<and>
   length (names_where is_host FaucetTopo_init) = 2 \<and>
   length (nodes FaucetTopo_init) = 2 + 1 + 3 + 2 \<and>
   distinct (map node_name (nodes FaucetTopo_init)) \<and>
   length (links FaucetTopo_init) = 8 \<and>
   list_all point_to_point (links FaucetTopo_init) \<and>
   list_all named_on_both_ends (links FaucetTopo_init)"
  by (simp add: names_where_def FaucetTopo_nodes FaucetTopo_links is_switch_def
      is_controller_def is_nfv_def is_host_def point_to_point_def named_on_both_ends_def)

text \<open>
  C8. On every node, the interface names that the eight link declarations assign to it
  are pairwise distinct; the same name may stand on two different nodes (\<open>eth0\<close> is used
  on \<open>h1\<close>, \<open>h2\<close> and \<open>sw2\<close>).
\<close>

theorem interface_names_unique_per_node:
  "(\<forall>n. distinct (intf_names_of n FaucetTopo_init)) \<and>
   length (endpoints FaucetTopo_init) = 2 * 8 \<and>
   intf_names_of ''h1'' FaucetTopo_init = [Some ''eth0''] \<and>
   intf_names_of ''h2'' FaucetTopo_init = [Some ''eth0'']"
proof -
  have d: "distinct (endpoints FaucetTopo_init)"
    by (simp add: endpoints_def FaucetTopo_links)
  have "distinct (intf_names_of n FaucetTopo_init)" for n
    unfolding intf_names_of_def
    by (rule distinct_map_filter_fst [OF d])
  moreover have "length (endpoints FaucetTopo_init) = 2 * 8"
    by (simp add: endpoints_def FaucetTopo_links)
  moreover have "intf_names_of ''h1'' FaucetTopo_init = [Some ''eth0'']"
    by (simp add: intf_names_of_def endpoints_def FaucetTopo_links)
  moreover have "intf_names_of ''h2'' FaucetTopo_init = [Some ''eth0'']"
    by (simp add: intf_names_of_def endpoints_def FaucetTopo_links)
  ultimately show ?thesis by blast
qed

text \<open>
  C9. The switches are \<open>sw1\<close> and \<open>sw2\<close>; each is declared with a datapath identifier,
  the two identifiers differ, and both are declared with the one protocol version
  \<open>OpenFlow13\<close> (a single version: the text holds no separator).
\<close>

theorem switches_pinned:
  "map (\<lambda>n. (node_name n, dpid n, protocols n)) (filter is_switch (nodes FaucetTopo_init)) =
     [(''sw1'', Some ''1'', Some ''OpenFlow13''), (''sw2'', Some ''2'', Some ''OpenFlow13'')] \<and>
   distinct (map dpid (filter is_switch (nodes FaucetTopo_init))) \<and>
   list_all (\<lambda>n. dpid n \<noteq> None \<and> protocols n = Some ''OpenFlow13'')
     (filter is_switch (nodes FaucetTopo_init)) \<and>
   CHR '','' \<notin> set ''OpenFlow13''"
  by (simp add: FaucetTopo_nodes is_switch_def)

text \<open>
  C10. The nodes declared with an address other than the placeholder \<open>0.0.0.0\<close> are
  exactly \<open>dhcp\<close> (10.0.0.254) and \<open>nat\<close> (10.0.0.1); the nodes declared with the
  placeholder are the controller node \<open>faucet\<close>, \<open>ids\<close>, \<open>h1\<close> and \<open>h2\<close>; the
  switches are declared with no address; and the non-switch nodes declared with the
  namespace flag are exactly the three network-function nodes.
\<close>

theorem static_addresses_and_namespaces:
  "map (\<lambda>n. (node_name n, ip n)) (filter has_static_ip (nodes FaucetTopo_init)) =
     [(''dhcp'', Some ''10.0.0.254''), (''nat'', Some ''10.0.0.1'')] \<and>
   names_where has_placeholder_ip FaucetTopo_init = [''faucet'', ''ids'', ''h1'', ''h2''] \<and>
   names_where is_controller FaucetTopo_init = [''faucet''] \<and>
   names_where is_host FaucetTopo_init = [''h1'', ''h2''] \<and>
   names_where namespaced_non_switch FaucetTopo_init = [''dhcp'', ''nat'', ''ids''] \<and>
   names_where is_nfv FaucetTopo_init = [''dhcp'', ''nat'', ''ids'']"
  by (simp add: names_where_def FaucetTopo_nodes has_static_ip_def has_placeholder_ip_def
      placeholder_ip_def is_controller_def is_host_def namespaced_non_switch_def is_nfv_def)

section \<open>Executions: basic facts\<close>


lemma exec_eq: "exec env a s = (fst (env (world s) a), perform env a s)"
  by (simp add: perform_def exec_def split: prod.splits)

lemma trace_perform:
  "trace (perform env a s) = trace s @ [(a, fst (env (world s) a))]"
  by (simp add: perform_def exec_def split: prod.splits)

lemma world_perform: "world (perform env a s) = snd (env (world s) a)"
  by (simp add: perform_def exec_def split: prod.splits)

lemma actions_perform: "actions (perform env a s) = actions s @ [a]"
  by (simp add: actions_def trace_perform)

lemma actions_perform_all: "actions (perform_all env as s) = actions s @ as"
  by (induction as arbitrary: s) (simp_all add: actions_perform)

lemma actions_for_each:
  "actions (for_each (\<lambda>x. perform_all env (f x)) xs s) = actions s @ concat (map f xs)"
  by (induction xs arbitrary: s) (simp_all add: actions_perform_all)

subsection \<open>Polling loops\<close>

lemma observation_0: "observation env p 0 s = fst (exec env (probe p) s)"
  by (simp add: observation_def)

lemma observation_Suc:
  "observation env p (Suc k) s =
     observation env p k (perform_all env (body p) (perform env (probe p) s))"
  by (simp add: observation_def)

lemma after_poll_0: "after_poll env p 0 s = perform env (probe p) s"
  by (simp add: after_poll_def)

lemma after_poll_Suc:
  "after_poll env p (Suc k) s =
     after_poll env p k (perform_all env (body p) (perform env (probe p) s))"
  by (simp add: after_poll_def)

lemma while_step_unmet:
  "\<not> py_in (marker p) (observation env p 0 s) \<Longrightarrow>
   while_not_in (Suc n) env p s =
     while_not_in n env p (perform_all env (body p) (perform env (probe p) s))"
  by (simp add: observation_0 exec_eq)

lemma while_step_met:
  "py_in (marker p) (observation env p 0 s) \<Longrightarrow>
   while_not_in n env p s = Finished (after_poll env p 0 s)"
  by (cases n) (simp_all add: observation_0 exec_eq after_poll_0)

lemma while_never:
  "(\<And>k. k \<le> n \<Longrightarrow> \<not> py_in (marker p) (observation env p k s)) \<Longrightarrow>
   while_not_in n env p s = Exhausted (after_poll env p n s)"
proof (induction n arbitrary: s)
  case 0
  then show ?case by (simp add: observation_0 exec_eq after_poll_0)
next
  case (Suc n)
  let ?s' = "perform_all env (body p) (perform env (probe p) s)"
  have unmet: "\<not> py_in (marker p) (observation env p 0 s)"
    using Suc.prems [of 0] by simp
  have "while_not_in n env p ?s' = Exhausted (after_poll env p n ?s')"
  proof (rule Suc.IH)
    fix k assume "k \<le> n"
    then show "\<not> py_in (marker p) (observation env p k ?s')"
      using Suc.prems [of "Suc k"] by (simp add: observation_Suc)
  qed
  then show ?case
    by (simp only: while_step_unmet [OF unmet] after_poll_Suc)
qed

lemma while_first:
  "k \<le> n \<Longrightarrow> py_in (marker p) (observation env p k s) \<Longrightarrow>
   (\<And>j. j < k \<Longrightarrow> \<not> py_in (marker p) (observation env p j s)) \<Longrightarrow>
   while_not_in n env p s = Finished (after_poll env p k s)"
proof (induction k arbitrary: n s)
  case 0
  then show ?case by (simp add: while_step_met)
next
  case (Suc k)
  let ?s' = "perform_all env (body p) (perform env (probe p) s)"
  obtain m where n: "n = Suc m" and km: "k \<le> m"
    using Suc.prems(1) by (cases n) auto
  have unmet: "\<not> py_in (marker p) (observation env p 0 s)"
    using Suc.prems(3) [of 0] by simp
  have "while_not_in m env p ?s' = Finished (after_poll env p k ?s')"
  proof (rule Suc.IH [OF km])
    show "py_in (marker p) (observation env p k ?s')"
      using Suc.prems(2) by (simp add: observation_Suc)
    fix j assume "j < k"
    then show "\<not> py_in (marker p) (observation env p j ?s')"
      using Suc.prems(3) [of "Suc j"] by (simp add: observation_Suc)
  qed
  then show ?case
    by (simp only: n while_step_unmet [OF unmet] after_poll_Suc)
qed

lemma while_cases:
  obtains (finished) k where "k \<le> n" "py_in (marker p) (observation env p k s)"
      "\<And>j. j < k \<Longrightarrow> \<not> py_in (marker p) (observation env p j s)"
      "while_not_in n env p s = Finished (after_poll env p k s)"
  | (exhausted) "\<And>k. k \<le> n \<Longrightarrow> \<not> py_in (marker p) (observation env p k s)"
      "while_not_in n env p s = Exhausted (after_poll env p n s)"
proof (cases "\<exists>k\<le>n. py_in (marker p) (observation env p k s)")
  case True
  then have "\<exists>k. (k \<le> n \<and> py_in (marker p) (observation env p k s)) \<and>
      (\<forall>j<k. \<not> (j \<le> n \<and> py_in (marker p) (observation env p j s)))"
    by (subst (asm) exists_least_iff) simp
  then obtain k where k: "k \<le> n" "py_in (marker p) (observation env p k s)"
    and least: "\<And>j. j < k \<Longrightarrow> \<not> py_in (marker p) (observation env p j s)"
    by (metis le_trans less_imp_le_nat)
  have "while_not_in n env p s = Finished (after_poll env p k s)"
    using k least by (rule while_first)
  then show ?thesis
    using k least by (rule_tac finished)
next
  case False
  then have never: "\<And>k. k \<le> n \<Longrightarrow> \<not> py_in (marker p) (observation env p k s)"
    by simp
  then have "while_not_in n env p s = Exhausted (after_poll env p n s)"
    by (rule while_never)
  then show ?thesis
    using never by (rule_tac exhausted)
qed

lemma actions_nth_round:
  "actions (nth_round env p k s) = actions s @ concat (replicate k (probe p # body p))"
  by (induction k arbitrary: s) (simp_all add: actions_perform_all actions_perform)

lemma actions_after_poll:
  "actions (after_poll env p k s) =
     actions s @ concat (replicate k (probe p # body p)) @ [probe p]"
  by (simp add: after_poll_def actions_perform actions_nth_round)


subsection \<open>Sequences of actions and sequences of steps\<close>

lemma all_before_append:
  "all_before P Q (xs @ ys) \<longleftrightarrow>
     all_before P Q xs \<and> all_before P Q ys \<and> (list_ex Q xs \<longrightarrow> \<not> list_ex P ys)"
  by (induction xs) auto

lemma retried_between_no_probe:
  "pr \<notin> set xs \<Longrightarrow> retried_between pr A xs"
  by (induction xs) auto

lemma retried_between_pad_left:
  "pr \<notin> set xs \<Longrightarrow> retried_between pr A (xs @ ys) = retried_between pr A ys"
  by (induction xs) auto

lemma retried_between_pad_right:
  "pr \<notin> set ys \<Longrightarrow> retried_between pr A (xs @ ys) = retried_between pr A xs"
  by (induction xs) (auto simp: takeWhile_append retried_between_no_probe)

lemma retried_between_rounds:
  "pr \<notin> set bd \<Longrightarrow> list_ex A bd \<Longrightarrow>
   retried_between pr A (concat (replicate k (pr # bd)) @ [pr])"
proof (induction k)
  case 0
  then show ?case by simp
next
  case (Suc k)
  have tw: "takeWhile (\<lambda>y. y \<noteq> pr) (bd @ zs) = bd" if "zs = [] \<or> hd zs = pr" for zs
    using Suc.prems(1) that
    by (cases zs) (auto simp: takeWhile_append1 takeWhile_eq_all_conv takeWhile_append)
  have "retried_between pr A (bd @ concat (replicate k (pr # bd)) @ [pr]) =
        retried_between pr A (concat (replicate k (pr # bd)) @ [pr])"
    using Suc.prems(1) by (rule retried_between_pad_left)
  moreover have "takeWhile (\<lambda>y. y \<noteq> pr) (bd @ concat (replicate k (pr # bd)) @ [pr]) = bd"
    by (rule tw) (cases k; simp)
  ultimately show ?case
    using Suc by simp
qed

lemma seq_append:
  "seq (ps @ qs) s =
     (case seq ps s of Finished s1 \<Rightarrow> seq qs s1 | Exhausted s1 \<Rightarrow> Exhausted s1)"
  by (induction ps arbitrary: s) (simp_all split: outcome.splits)

lemma onlyI:
  "(\<And>s. \<exists>ys. actions (state_of (ph s)) = actions s @ ys \<and> list_all R ys) \<Longrightarrow> only R ph"
  by (simp add: only_def)

lemma onlyD:
  "only R ph \<Longrightarrow> \<exists>ys. actions (state_of (ph s)) = actions s @ ys \<and> list_all R ys"
  by (simp add: only_def)

lemma only_seq: "list_all (only R) phs \<Longrightarrow> only R (seq phs)"
proof (induction phs)
  case Nil
  then show ?case by (simp add: only_def)
next
  case (Cons ph phs)
  then have ph: "only R ph" and rest: "only R (seq phs)" by simp_all
  show ?case
  proof (rule onlyI)
    fix s
    obtain ys where ys: "actions (state_of (ph s)) = actions s @ ys" "list_all R ys"
      using onlyD [OF ph, of s] by blast
    show "\<exists>zs. actions (state_of (seq (ph # phs) s)) = actions s @ zs \<and> list_all R zs"
    proof (cases "ph s")
      case (Finished s')
      obtain zs where zs: "actions (state_of (seq phs s')) = actions s' @ zs" "list_all R zs"
        using onlyD [OF rest, of s'] by blast
      have "actions (state_of (seq (ph # phs) s)) = actions s @ (ys @ zs)"
        using Finished ys zs by simp
      moreover have "list_all R (ys @ zs)" using ys zs by simp
      ultimately show ?thesis by blast
    next
      case (Exhausted s')
      then show ?thesis using ys by auto
    qed
  qed
qed

lemma only_straight_perform_all:
  "list_all R as \<Longrightarrow> only R (straight (perform_all env as))"
  by (simp add: only_def straight_def actions_perform_all)

lemma only_straight_perform:
  "R a \<Longrightarrow> only R (straight (perform env a))"
  by (simp add: only_def straight_def actions_perform)

lemma list_all_rounds:
  "list_all R (concat (replicate k xs)) \<longleftrightarrow> k = 0 \<or> list_all R xs"
  by (induction k) auto

lemma wait_for_cases:
  obtains (finished) k where "k \<le> n"
      "py_in (marker p) (observation env p k (perform env (Info b) s))"
      "\<And>j. j < k \<Longrightarrow> \<not> py_in (marker p) (observation env p j (perform env (Info b) s))"
      "wait_for b p a n env s =
         Finished (perform env (Info a) (after_poll env p k (perform env (Info b) s)))"
  | (exhausted)
      "\<And>k. k \<le> n \<Longrightarrow> \<not> py_in (marker p) (observation env p k (perform env (Info b) s))"
      "wait_for b p a n env s = Exhausted (after_poll env p n (perform env (Info b) s))"
proof (cases rule: while_cases [where n = n and env = env and p = p and s = "perform env (Info b) s"])
  case (finished k)
  then show ?thesis
    using that(1) [of k] by (simp add: wait_for_def)
next
  case exhausted
  then show ?thesis
    using that(2) by (simp add: wait_for_def)
qed

lemma only_wait_for:
  assumes "R (Info b)" "R (Info a)" "R (probe p)" "list_all R (body p)"
  shows "only R (wait_for b p a n env)"
proof (rule onlyI)
  fix s
  show "\<exists>ys. actions (state_of (wait_for b p a n env s)) = actions s @ ys \<and> list_all R ys"
  proof (cases rule: wait_for_cases [where n = n and env = env and p = p and b = b and s = s and a = a])
    case (finished k)
    have "actions (state_of (wait_for b p a n env s)) =
            actions s @ (Info b # concat (replicate k (probe p # body p)) @ [probe p, Info a])"
      by (simp add: finished(4) actions_perform actions_after_poll)
    moreover have "list_all R (Info b # concat (replicate k (probe p # body p)) @ [probe p, Info a])"
      using assms by (simp add: list_all_rounds)
    ultimately show ?thesis by blast
  next
    case exhausted
    have "actions (state_of (wait_for b p a n env s)) =
            actions s @ (Info b # concat (replicate n (probe p # body p)) @ [probe p])"
      by (simp add: exhausted(2) actions_perform actions_after_poll)
    moreover have "list_all R (Info b # concat (replicate n (probe p # body p)) @ [probe p])"
      using assms by (simp add: list_all_rounds)
    ultimately show ?thesis by blast
  qed
qed

lemma actions_wait_for:
  "\<exists>k\<le>n. \<exists>fin. actions (state_of (wait_for b p a n env s)) =
     actions s @ Info b # (concat (replicate k (probe p # body p)) @ [probe p]) @ fin \<and>
     (fin = [] \<or> fin = [Info a])"
proof (cases rule: wait_for_cases [where n = n and env = env and p = p and b = b and s = s and a = a])
  case (finished k)
  have "actions (state_of (wait_for b p a n env s)) =
      actions s @ Info b # (concat (replicate k (probe p # body p)) @ [probe p]) @ [Info a]"
    by (simp add: finished(4) actions_perform actions_after_poll)
  then show ?thesis using finished(1) by blast
next
  case exhausted
  have "actions (state_of (wait_for b p a n env s)) =
      actions s @ Info b # (concat (replicate n (probe p # body p)) @ [probe p]) @ []"
    by (simp add: exhausted(2) actions_perform actions_after_poll)
  then show ?thesis by blast
qed

text \<open>
  \<open>all_before\<close> in terms of positions.
\<close>

lemma all_before_iff:
  "all_before P Q xs \<longleftrightarrow>
     (\<forall>i j. i < length xs \<and> j < length xs \<and> P (xs ! i) \<and> Q (xs ! j) \<longrightarrow> i < j)"
proof (induction xs)
  case Nil
  then show ?case by simp
next
  case (Cons x xs)
  let ?R = "\<lambda>zs. \<forall>i j. i < length zs \<and> j < length zs \<and> P (zs ! i) \<and> Q (zs ! j) \<longrightarrow> i < j"
  have split: "?R (x # xs) \<longleftrightarrow> (Q x \<longrightarrow> \<not> P x \<and> \<not> (\<exists>i<length xs. P (xs ! i))) \<and> ?R xs"
  proof
    assume r: "?R (x # xs)"
    have "\<not> P x" if "Q x"
    proof
      assume "P x"
      then have "(0::nat) < 0" using r [THEN spec, THEN spec, of 0 0] that by simp
      then show False by simp
    qed
    moreover have "\<not> P (xs ! i)" if "Q x" "i < length xs" for i
    proof
      assume "P (xs ! i)"
      then have "Suc i < 0" using r [THEN spec, THEN spec, of "Suc i" 0] that by simp
      then show False by simp
    qed
    moreover have "?R xs"
    proof (intro allI impI)
      fix i j assume "i < length xs \<and> j < length xs \<and> P (xs ! i) \<and> Q (xs ! j)"
      then show "i < j" using r [THEN spec, THEN spec, of "Suc i" "Suc j"] by simp
    qed
    ultimately show "(Q x \<longrightarrow> \<not> P x \<and> \<not> (\<exists>i<length xs. P (xs ! i))) \<and> ?R xs"
      by blast
  next
    assume a: "(Q x \<longrightarrow> \<not> P x \<and> \<not> (\<exists>i<length xs. P (xs ! i))) \<and> ?R xs"
    have a1: "\<not> P x" if "Q x" using a that by blast
    have a2: "\<not> P (xs ! i)" if "Q x" "i < length xs" for i using a that by blast
    have a3: "i < j" if "i < length xs" "j < length xs" "P (xs ! i)" "Q (xs ! j)" for i j
      using a that by blast
    show "?R (x # xs)"
    proof (intro allI impI)
      fix i j
      assume h: "i < length (x # xs) \<and> j < length (x # xs) \<and> P ((x # xs) ! i) \<and> Q ((x # xs) ! j)"
      show "i < j"
      proof (cases i)
        case 0
        show ?thesis
        proof (cases j)
          case 0
          then show ?thesis using h a1 \<open>i = 0\<close> by simp
        next
          case (Suc j')
          then show ?thesis using \<open>i = 0\<close> by simp
        qed
      next
        case (Suc i')
        show ?thesis
        proof (cases j)
          case 0
          then show ?thesis using h a2 [of i'] Suc by simp
        next
          case (Suc j')
          then show ?thesis using h a3 [of i' j'] \<open>i = Suc i'\<close> by simp
        qed
      qed
    qed
  qed
  have "all_before P Q (x # xs) \<longleftrightarrow>
          (Q x \<longrightarrow> \<not> P x \<and> \<not> list_ex P xs) \<and> all_before P Q xs"
    by simp
  then show ?case
    unfolding split using Cons.IH by (simp only: list_ex_length [of P xs])
qed

subsection \<open>The steps of run\<close>

lemma all_before_no_first: "\<not> list_ex P xs \<Longrightarrow> all_before P Q xs"
  by (induction xs) auto

lemma all_before_no_second: "\<not> list_ex Q xs \<Longrightarrow> all_before P Q xs"
  by (induction xs) auto

lemma list_all_concat_map:
  "list_all R (concat (map f xs)) \<longleftrightarrow> list_all (\<lambda>x. list_all R (f x)) xs"
  by (induction xs) auto

lemma actions_teardown:
  "actions (teardown ext nt env s) =
     actions s @
       [DelIntf ''nat'' ext,
        Info (''*** Stopping '' @ str_of_nat (length (net_links nt)) @ '' links:'')] @
       concat (map (\<lambda>l. [Info ''.'', LinkStop l]) (net_links nt)) @
       [Info nl,
        Info (''*** Stopping '' @ str_of_nat (length (net_hosts nt)) @ '' hosts: '')] @
       concat (map (\<lambda>h. [Info (h @ '' ''), HostStop h True, HostTerminate h]) (net_hosts nt)) @
       [Info (''...done'' @ nl), NetStop]"
  by (simp add: teardown_def Let_def actions_perform actions_for_each)

lemma actions_nat_setup:
  "actions (nat_setup ext env s) =
     actions s @
       [Info ''*** Moving bridged interface into the NAT NFV..'',
        Intf ext ''nat'',
        Sleep 1,
        NodeCmd ''nat'' ''/sbin/dhclient enp0s9'',
        Info (''...done'' @ nl),
        Info ''*** Enabling IP forwarding and Masquerading on NAT NFV.. '',
        NodeCmd ''nat'' ''/sbin/ifconfig lo:1 1.1.1.1/24'',
        NodeCmd ''nat'' ''/sbin/ifconfig lo:1 1111::1/64'',
        NodeCmd ''nat''
          (''/sbin/iptables -t nat -A POSTROUTING -o '' @ ext @ '' -j MASQUERADE''),
        NodeCmd ''nat'' ''/sbin/sysctl -q -w net.ipv4.ip_forward=1'',
        Info (''...done'' @ nl)]"
  by (simp only: nat_setup_def actions_perform_all)

lemma only_teardown:
  assumes "R (DelIntf ''nat'' ext)" "\<And>t. R (Info t)" "\<And>l. R (LinkStop l)"
    "\<And>h. R (HostStop h True)" "\<And>h. R (HostTerminate h)" "R NetStop"
  shows "only R (straight (teardown ext nt env))"
proof -
  have "list_all R (concat (map (\<lambda>l. [Info ''.'', LinkStop l]) (net_links nt)))"
    using assms by (simp add: list_all_concat_map list_all_iff)
  moreover have "list_all R
      (concat (map (\<lambda>h. [Info (h @ '' ''), HostStop h True, HostTerminate h]) (net_hosts nt)))"
    using assms by (simp add: list_all_concat_map list_all_iff)
  ultimately show ?thesis
    using assms by (simp add: only_def straight_def actions_teardown)
qed

lemma only_straight:
  "(\<And>s. \<exists>ys. actions (f s) = actions s @ ys \<and> list_all R ys) \<Longrightarrow> only R (straight f)"
  by (simp add: only_def straight_def)

lemma seq_Finished_all:
  "seq phs s = Finished s' \<Longrightarrow> ph \<in> set phs \<Longrightarrow> \<exists>s1 s2. ph s1 = Finished s2"
proof (induction phs arbitrary: s)
  case Nil
  then show ?case by simp
next
  case (Cons a phs)
  then show ?case
    by (cases "a s") (auto split: outcome.splits)
qed

lemma wait_for_Finished_marker:
  assumes "wait_for b p a n env s = Finished s'"
  shows "\<exists>w. py_in (marker p) (fst (env w (probe p)))"
proof (cases rule: wait_for_cases [where n = n and env = env and p = p and b = b and s = s and a = a])
  case (finished k)
  then show ?thesis
    by (auto simp: observation_def exec_eq)
next
  case exhausted
  then show ?thesis using assms by simp
qed

lemma seq_sandwich [consumes 2, case_names reached not_reached]:
  assumes A: "list_all (only R) A" and B: "list_all (only R) B"
    and reached: "\<And>s1 pre post.
      seq A s0 = Finished s1 \<Longrightarrow>
      actions s1 = actions s0 @ pre \<Longrightarrow> list_all R pre \<Longrightarrow>
      actions (state_of (seq (A @ ph # B) s0)) = actions (state_of (ph s1)) @ post \<Longrightarrow>
      list_all R post \<Longrightarrow>
      is_Finished (seq (A @ ph # B) s0) \<longrightarrow> is_Finished (ph s1) \<Longrightarrow> thesis"
    and not_reached: "\<And>pre.
      actions (state_of (seq (A @ ph # B) s0)) = actions s0 @ pre \<Longrightarrow> list_all R pre \<Longrightarrow>
      \<not> is_Finished (seq (A @ ph # B) s0) \<Longrightarrow> thesis"
  shows thesis
proof -
  obtain pre where pre: "actions (state_of (seq A s0)) = actions s0 @ pre" "list_all R pre"
    using onlyD [OF only_seq [OF A], of s0] by blast
  show ?thesis
  proof (cases "seq A s0")
    case (Exhausted s1)
    then have "seq (A @ ph # B) s0 = Exhausted s1"
      by (simp add: seq_append)
    then show ?thesis
      using not_reached [of pre] pre Exhausted by simp
  next
    case (Finished s1)
    show ?thesis
    proof (cases "ph s1")
      case Ex: (Exhausted s2)
      then have "seq (A @ ph # B) s0 = Exhausted s2"
        using Finished by (simp add: seq_append)
      then show ?thesis
        using reached [of s1 pre "[]"] pre Finished Ex by simp
    next
      case Fi: (Finished s2)
      obtain post where post: "actions (state_of (seq B s2)) = actions s2 @ post" "list_all R post"
        using onlyD [OF only_seq [OF B], of s2] by blast
      have "seq (A @ ph # B) s0 = seq B s2"
        using Finished Fi by (simp add: seq_append)
      then show ?thesis
        using reached [of s1 pre post] pre post Finished Fi by simp
    qed
  qed
qed

lemmas wait_defs = check_faucet_def wait_connected_def check_dnsmasq_def wait_lease_def
  faucet_poll_def connected_poll_def dnsmasq_poll_def lease_poll_def

subsection \<open>The whole of run\<close>

lemma run_with_seq:
  "run_with ext mk fuel env w =
     seq ([straight (start_network env), straight (set_controllers env)] @
          [check_faucet fuel env, wait_connected fuel env, check_dnsmasq fuel env,
           wait_lease ''h1'' fuel env, wait_lease ''h2'' fuel env,
           straight (nat_setup ext env), straight (perform env CLI),
           straight (teardown ext (mk FaucetTopo_init) env)])
       \<lparr>world = w, trace = []\<rparr>"
  by (simp add: run_with_def)

lemma actions_initial: "actions \<lparr>world = w, trace = []\<rparr> = []"
  by (simp add: actions_def)

lemma seq_start:
  "seq [straight (start_network env), straight (set_controllers env)] s =
     Finished (set_controllers env (start_network env s))"
  by (simp add: straight_def)

lemma actions_started:
  "actions (set_controllers env (start_network env s)) =
     actions s @
       [NetStart, Info (''*** Provisioning all mininet hosts'' @ nl),
        NodeCmd ''sw1'' ''ovs-vsctl set-controller sw1 tcp:127.0.0.1:6633'',
        NodeCmd ''sw2'' ''ovs-vsctl set-controller sw2 tcp:127.0.0.1:6633'']"
  by (simp only: set_controllers_def start_network_def actions_perform_all append_assoc
      append.simps)

lemma only_nat_setup:
  assumes "\<And>t. R (Info t)" "R (Intf ext ''nat'')" "R (Sleep 1)" "\<And>c. R (NodeCmd ''nat'' c)"
  shows "only R (straight (nat_setup ext env))"
  using assms by (simp add: only_def straight_def actions_nat_setup)

lemma later_steps_no_set_controller:
  "list_all (only (\<lambda>a. \<not> is_set_controller a))
     [check_faucet fuel env, wait_connected fuel env, check_dnsmasq fuel env,
      wait_lease ''h1'' fuel env, wait_lease ''h2'' fuel env,
      straight (nat_setup ext env), straight (perform env CLI),
      straight (teardown ext nt env)]"
  by (simp add: wait_defs only_wait_for only_nat_setup only_straight_perform only_teardown
      is_set_controller_def)

lemma seq_Cons_extends:
  assumes "list_all (only (\<lambda>a. True)) B"
  shows "\<exists>zs. actions (state_of (seq (ph # B) s)) = actions (state_of (ph s)) @ zs"
proof (cases "ph s")
  case (Finished s')
  then show ?thesis
    using onlyD [OF only_seq [OF assms], of s'] by auto
next
  case (Exhausted s')
  then show ?thesis by simp
qed

lemma all_before_filter:
  assumes "\<And>x. P x \<Longrightarrow> T x" "\<And>x. Q x \<Longrightarrow> T x"
  shows "all_before P Q (filter T xs) = all_before P Q xs"
proof -
  have ex: "list_ex P (filter T ys) = list_ex P ys" for ys
    using assms(1) by (auto simp: list_ex_iff)
  show ?thesis
  proof (induction xs)
    case Nil
    then show ?case by simp
  next
    case (Cons x xs)
    show ?case
    proof (cases "T x")
      case True
      then show ?thesis using Cons ex [of xs] by simp
    next
      case False
      then have "\<not> P x" "\<not> Q x" using assms by blast+
      then show ?thesis using Cons False by simp
    qed
  qed
qed

lemma earlier_steps_no_teardown:
  "list_all (only (\<lambda>a. \<not> is_teardown a))
     [straight (start_network env), straight (set_controllers env),
      check_faucet fuel env, wait_connected fuel env, check_dnsmasq fuel env,
      wait_lease ''h1'' fuel env, wait_lease ''h2'' fuel env,
      straight (nat_setup ext env), straight (perform env CLI)]"
  by (simp add: wait_defs only_wait_for only_nat_setup only_straight_perform
      only_straight_perform_all start_network_def set_controllers_def)

lemma filter_teardown_actions:
  "filter is_teardown
     ([DelIntf ''nat'' ext, Info t1] @
       concat (map (\<lambda>l. [Info ''.'', LinkStop l]) ls) @
       [Info t2, Info t3] @
       concat (map (\<lambda>h. [Info (h @ '' ''), HostStop h True, HostTerminate h]) hs) @
       [Info t4, NetStop]) =
   DelIntf ''nat'' ext # map LinkStop ls @
     concat (map (\<lambda>h. [HostStop h True, HostTerminate h]) hs) @ [NetStop]"
proof -
  have "filter is_teardown (concat (map (\<lambda>l. [Info ''.'', LinkStop l]) ls)) = map LinkStop ls"
    by (induction ls) simp_all
  moreover have "filter is_teardown
      (concat (map (\<lambda>h. [Info (h @ '' ''), HostStop h True, HostTerminate h]) hs)) =
      concat (map (\<lambda>h. [HostStop h True, HostTerminate h]) hs)"
    by (induction hs) simp_all
  ultimately show ?thesis by simp
qed

lemma teardown_sequence_ordered:
  "all_before is_del_intf is_link_stop
     (DelIntf n e # map LinkStop ls @
       concat (map (\<lambda>h. [HostStop h True, HostTerminate h]) hs) @ [NetStop]) \<and>
   all_before is_link_stop is_host_stop
     (DelIntf n e # map LinkStop ls @
       concat (map (\<lambda>h. [HostStop h True, HostTerminate h]) hs) @ [NetStop]) \<and>
   all_before is_host_stop (\<lambda>a. a = NetStop)
     (DelIntf n e # map LinkStop ls @
       concat (map (\<lambda>h. [HostStop h True, HostTerminate h]) hs) @ [NetStop])"
proof -
  have a: "\<not> list_ex is_del_intf (map LinkStop ls)" "\<not> list_ex is_host_stop (map LinkStop ls)"
    "\<not> list_ex (\<lambda>a. a = NetStop) (map LinkStop ls)"
    by (induction ls) simp_all
  have b: "\<not> list_ex is_del_intf (concat (map (\<lambda>h. [HostStop h True, HostTerminate h]) hs))"
    "\<not> list_ex is_link_stop (concat (map (\<lambda>h. [HostStop h True, HostTerminate h]) hs))"
    "\<not> list_ex (\<lambda>a. a = NetStop) (concat (map (\<lambda>h. [HostStop h True, HostTerminate h]) hs))"
    by (induction hs) simp_all
  show ?thesis
    using a b
    by (simp add: all_before_append all_before_no_first all_before_no_second)
qed

lemma seq_snoc_Finished:
  assumes "seq (A @ [straight f]) s0 = Finished s"
  obtains s1 where "seq A s0 = Finished s1" "s = f s1"
  using assms by (auto simp: seq_append straight_def split: outcome.splits)

lemma while_answering:
  "is_command (probe p) \<Longrightarrow> py_in (marker p) out \<Longrightarrow>
   while_not_in n (answering out) p s = Finished (perform (answering out) (probe p) s)"
  by (cases n) (simp_all add: exec_eq answering_def)

lemma wait_for_answering:
  "is_command (probe p) \<Longrightarrow> py_in (marker p) out \<Longrightarrow>
   is_Finished (wait_for b p a n (answering out) s)"
  by (simp add: wait_for_def while_answering)

lemma seq_all_finish:
  "(\<And>ph s. ph \<in> set phs \<Longrightarrow> is_Finished (ph s)) \<Longrightarrow> is_Finished (seq phs s)"
proof (induction phs arbitrary: s)
  case Nil
  then show ?case by simp
next
  case (Cons a phs)
  have "is_Finished (a s)" using Cons.prems by simp
  then obtain s' where "a s = Finished s'" by (cases "a s") simp_all
  then show ?case using Cons by simp
qed

lemma run_all_ready_finishes:
  "is_Finished (run_with ext mk n (answering all_ready) w)"
  unfolding run_with_def Let_def
  by (rule seq_all_finish)
     (auto simp: straight_def wait_defs wait_for_answering all_ready_def)

lemma Finished_state_of: "is_Finished r \<Longrightarrow> r = Finished (state_of r)"
  by (cases r) simp_all

lemma steps_no_attach_dhclient:
  "list_all (only (\<lambda>a. \<not> is_attach a \<and> \<not> is_dhclient a))
     [straight (start_network env), straight (set_controllers env),
      check_faucet fuel env, wait_connected fuel env, check_dnsmasq fuel env,
      wait_lease ''h1'' fuel env, wait_lease ''h2'' fuel env]"
  "list_all (only (\<lambda>a. \<not> is_attach a \<and> \<not> is_dhclient a))
     [straight (perform env CLI), straight (teardown ext nt env)]"
  by (simp_all add: wait_defs only_wait_for only_straight_perform only_teardown
      only_straight_perform_all start_network_def set_controllers_def)

lemma run_Finished_markers:
  assumes "run_with ext mk n env w = Finished s" "p \<in> set polling_steps"
  shows "\<exists>w'. py_in (marker p) (fst (env w' (probe p)))"
proof -
  let ?phs = "[straight (start_network env), straight (set_controllers env),
      check_faucet n env, wait_connected n env, check_dnsmasq n env,
      wait_lease ''h1'' n env, wait_lease ''h2'' n env,
      straight (nat_setup ext env), straight (perform env CLI),
      straight (teardown ext (mk FaucetTopo_init) env)]"
  have run: "seq ?phs \<lparr>world = w, trace = []\<rparr> = Finished s"
    using assms(1) by (simp add: run_with_def)
  have "\<exists>b a. wait_for b p a n env \<in> set ?phs"
  proof -
    consider "p = faucet_poll" | "p = connected_poll" | "p = dnsmasq_poll"
      | "p = lease_poll ''h1''" | "p = lease_poll ''h2''"
      using assms(2) by (auto simp: polling_steps_def)
    then show ?thesis
    proof cases
      case 1
      have "check_faucet n env \<in> set ?phs" by simp
      then show ?thesis unfolding check_faucet_def 1 by blast
    next
      case 2
      have "wait_connected n env \<in> set ?phs" by simp
      then show ?thesis unfolding wait_connected_def 2 by blast
    next
      case 3
      have "check_dnsmasq n env \<in> set ?phs" by simp
      then show ?thesis unfolding check_dnsmasq_def 3 by blast
    next
      case 4
      have "wait_lease ''h1'' n env \<in> set ?phs" by simp
      then show ?thesis unfolding wait_lease_def 4 by blast
    next
      case 5
      have "wait_lease ''h2'' n env \<in> set ?phs" by simp
      then show ?thesis unfolding wait_lease_def 5 by blast
    qed
  qed
  then obtain b a where "wait_for b p a n env \<in> set ?phs" by blast
  from seq_Finished_all [OF run this] obtain s1 s2
    where "wait_for b p a n env s1 = Finished s2" by blast
  then show ?thesis by (rule wait_for_Finished_marker)
qed

lemma retried_in_seq:
  assumes A: "list_all (only (\<lambda>x. x \<noteq> probe p)) A"
    and B: "list_all (only (\<lambda>x. x \<noteq> probe p)) B"
    and body: "probe p \<notin> set (body p)" "list_ex Q (body p)"
    and info: "\<And>t. probe p \<noteq> Info t"
    and s0: "actions s0 = []"
  shows "retried_between (probe p) Q
           (actions (state_of (seq (A @ wait_for b p a n env # B) s0)))"
  using A B
proof (cases rule: seq_sandwich [where ph = "wait_for b p a n env" and ?s0.0 = s0])
  case (reached s1 pre post)
  obtain k fin where ph: "actions (state_of (wait_for b p a n env s1)) =
       actions s1 @ Info b # (concat (replicate k (probe p # body p)) @ [probe p]) @ fin"
    and fin: "fin = [] \<or> fin = [Info a]"
    using actions_wait_for [of n b p a env s1] by blast
  have pre: "probe p \<notin> set (pre @ [Info b])"
    using reached(3) info by (auto simp: list_all_iff)
  have post: "probe p \<notin> set (fin @ post)"
    using reached(5) fin info by (auto simp: list_all_iff)
  have "actions (state_of (seq (A @ wait_for b p a n env # B) s0)) =
      (pre @ [Info b]) @ (concat (replicate k (probe p # body p)) @ [probe p]) @ (fin @ post)"
    by (simp add: reached(4) ph reached(2) s0)
  then show ?thesis
    by (simp only: retried_between_pad_left [OF pre] retried_between_pad_right [OF post]
        retried_between_rounds [OF body])
next
  case (not_reached pre)
  have "probe p \<notin> set (actions s0 @ pre)"
    using not_reached(2) s0 by (auto simp: list_all_iff)
  then show ?thesis
    unfolding not_reached(1) by (rule retried_between_no_probe)
qed

lemma retried_faucet:
  "retried_between (probe faucet_poll) (\<lambda>x. x = QuietRun ''service faucet start'')
     (actions (state_of (run_with ext mk n env w)))"
proof -
  have "run_with ext mk n env w =
      seq ([straight (start_network env), straight (set_controllers env)] @
        wait_for ''*** Checking Faucet status'' faucet_poll (''...running'' @ nl) n env #
        [wait_connected n env, check_dnsmasq n env,
         wait_lease ''h1'' n env, wait_lease ''h2'' n env,
         straight (nat_setup ext env), straight (perform env CLI),
         straight (teardown ext (mk FaucetTopo_init) env)]) \<lparr>world = w, trace = []\<rparr>"
    by (simp add: run_with_def check_faucet_def)
  then show ?thesis
    by (simp only:) (rule retried_in_seq;
        simp add: wait_defs only_wait_for only_nat_setup only_straight_perform only_teardown
          only_straight_perform_all start_network_def set_controllers_def actions_initial)
qed

lemma retried_dnsmasq:
  "retried_between (probe dnsmasq_poll) (\<lambda>x. x = NodeCmd ''dhcp'' ''/usr/sbin/dnsmasq'')
     (actions (state_of (run_with ext mk n env w)))"
proof -
  have "run_with ext mk n env w =
      seq ([straight (start_network env), straight (set_controllers env),
         check_faucet n env, wait_connected n env] @
        wait_for ''*** Checking dnsmasq running in DHCP NFV'' dnsmasq_poll (''...started'' @ nl)
          n env #
        [wait_lease ''h1'' n env, wait_lease ''h2'' n env,
         straight (nat_setup ext env), straight (perform env CLI),
         straight (teardown ext (mk FaucetTopo_init) env)]) \<lparr>world = w, trace = []\<rparr>"
    by (simp add: run_with_def check_dnsmasq_def)
  then show ?thesis
    by (simp only:) (rule retried_in_seq;
        simp add: wait_defs only_wait_for only_nat_setup only_straight_perform only_teardown
          only_straight_perform_all start_network_def set_controllers_def actions_initial)
qed

lemma retried_h1:
  "retried_between (probe (lease_poll ''h1''))
     (\<lambda>x. x = NodeCmd ''h1'' ''/sbin/udhcpc -nq -t 3 -i eth0'')
     (actions (state_of (run_with ext mk n env w)))"
proof -
  have "run_with ext mk n env w =
      seq ([straight (start_network env), straight (set_controllers env),
         check_faucet n env, wait_connected n env, check_dnsmasq n env] @
        wait_for (''*** Waiting for '' @ ''h1'' @ '' to get DHCP IP address'') (lease_poll ''h1'')
          (''...got IP'' @ nl) n env #
        [wait_lease ''h2'' n env,
         straight (nat_setup ext env), straight (perform env CLI),
         straight (teardown ext (mk FaucetTopo_init) env)]) \<lparr>world = w, trace = []\<rparr>"
    by (simp add: run_with_def wait_lease_def)
  then show ?thesis
    by (simp only:) (rule retried_in_seq;
        simp add: wait_defs only_wait_for only_nat_setup only_straight_perform only_teardown
          only_straight_perform_all start_network_def set_controllers_def actions_initial)
qed

lemma retried_h2:
  "retried_between (probe (lease_poll ''h2''))
     (\<lambda>x. x = NodeCmd ''h2'' ''/sbin/udhcpc -nq -t 3 -i eth0'')
     (actions (state_of (run_with ext mk n env w)))"
proof -
  have "run_with ext mk n env w =
      seq ([straight (start_network env), straight (set_controllers env),
         check_faucet n env, wait_connected n env, check_dnsmasq n env,
         wait_lease ''h1'' n env] @
        wait_for (''*** Waiting for '' @ ''h2'' @ '' to get DHCP IP address'') (lease_poll ''h2'')
          (''...got IP'' @ nl) n env #
        [straight (nat_setup ext env), straight (perform env CLI),
         straight (teardown ext (mk FaucetTopo_init) env)]) \<lparr>world = w, trace = []\<rparr>"
    by (simp add: run_with_def wait_lease_def)
  then show ?thesis
    by (simp only:) (rule retried_in_seq;
        simp add: wait_defs only_wait_for only_nat_setup only_straight_perform only_teardown
          only_straight_perform_all start_network_def set_controllers_def actions_initial)
qed












lemma actions_while:
  "\<exists>k\<le>n. actions (state_of (while_not_in n env p s)) =
     actions s @ concat (replicate k (probe p # body p)) @ [probe p]"
proof (cases rule: while_cases [where n = n and env = env and p = p and s = s])
  case (finished k)
  then show ?thesis using actions_after_poll [of env p k s] by auto
next
  case exhausted
  then show ?thesis using actions_after_poll [of env p n s] by auto
qed


lemma observation_answering:
  "is_command (probe p) \<Longrightarrow> observation (answering out) p k s = out"
  by (simp add: observation_def exec_eq answering_def)

text \<open>
  One execution evaluated: every loop sees its marker on the second poll.
\<close>

lemma flaky_run_finishes: "is_Finished (run Mininet_build 1 flaky 0)"
  by code_simp

lemma flaky_run_start:
  "take 17 (actions (state_of (run Mininet_build 1 flaky 0))) =
     [NetStart, Info (''*** Provisioning all mininet hosts'' @ nl),
      NodeCmd ''sw1'' ''ovs-vsctl set-controller sw1 tcp:127.0.0.1:6633'',
      NodeCmd ''sw2'' ''ovs-vsctl set-controller sw2 tcp:127.0.0.1:6633'',
      Info ''*** Checking Faucet status'', QuietRun ''service faucet status'',
      Sleep 1, Info ''.'', QuietRun ''service faucet start'',
      QuietRun ''service faucet status'', Info (''...running'' @ nl),
      Info ''*** Waiting for switch to connect to controller'',
      QuietRun ''ovs-vsctl show'', Sleep 1, Info ''.'',
      QuietRun ''ovs-vsctl show'', Info (''...connected'' @ nl)]"
  by code_simp

lemma flaky_run_not_retried:
  "\<not> retried_between (QuietRun ''ovs-vsctl show'') is_command
       (actions (state_of (run Mininet_build 1 flaky 0)))"
  by code_simp

lemma retried_between_weaker:
  "retried_between pr A xs \<Longrightarrow> (\<And>x. A x \<Longrightarrow> B x) \<Longrightarrow> retried_between pr B xs"
  by (induction xs) (fastforce simp: list_ex_iff)+

text \<open>
  Every name that \<^verbatim>\<open>run\<close> passes to \<^verbatim>\<open>net.get\<close> is the name of a declared node.
\<close>

lemma run_nodes_declared:
  "set [''sw1'', ''sw2'', ''dhcp'', ''h1'', ''h2'', ''nat'']
     \<subseteq> set (map node_name (nodes FaucetTopo_init))"
  by (simp add: FaucetTopo_nodes)

section \<open>The provisioning sequence: order of the steps\<close>

text \<open>
  C7. In every execution of \<^verbatim>\<open>run\<close>, finished or still polling, the actions start with
  \<^verbatim>\<open>net.start()\<close>, the first message and the controller-address assignment to \<open>sw1\<close>
  and to \<open>sw2\<close>; no assignment is issued later; a poll is issued later; and every
  assignment stands before every poll of every polling step (the controller-service
  check and the wait for connection among them).
\<close>

theorem controllers_set_before_polling:
  "\<exists>rest. actions (state_of (run_with ext_int mininet fuel env w)) =
       [NetStart, Info (''*** Provisioning all mininet hosts'' @ nl),
        NodeCmd ''sw1'' ''ovs-vsctl set-controller sw1 tcp:127.0.0.1:6633'',
        NodeCmd ''sw2'' ''ovs-vsctl set-controller sw2 tcp:127.0.0.1:6633''] @ rest \<and>
     \<not> list_ex is_set_controller rest \<and>
     list_ex is_poll rest \<and>
     all_before is_set_controller is_poll (actions (state_of (run_with ext_int mininet fuel env w)))"
proof -
  let ?s0 = "\<lparr>world = w, trace = []\<rparr>"
  let ?s2 = "set_controllers env (start_network env ?s0)"
  let ?B = "[check_faucet fuel env, wait_connected fuel env, check_dnsmasq fuel env,
      wait_lease ''h1'' fuel env, wait_lease ''h2'' fuel env,
      straight (nat_setup ext_int env), straight (perform env CLI),
      straight (teardown ext_int (mininet FaucetTopo_init) env)]"
  let ?first = "[NetStart, Info (''*** Provisioning all mininet hosts'' @ nl),
        NodeCmd ''sw1'' ''ovs-vsctl set-controller sw1 tcp:127.0.0.1:6633'',
        NodeCmd ''sw2'' ''ovs-vsctl set-controller sw2 tcp:127.0.0.1:6633'']"
  have run: "run_with ext_int mininet fuel env w = seq ?B ?s2"
    unfolding run_with_seq seq_append seq_start by simp
  have s2: "actions ?s2 = ?first"
    by (simp only: actions_started actions_initial append_Nil)
  obtain rest where rest: "actions (state_of (seq ?B ?s2)) = actions ?s2 @ rest"
      "list_all (\<lambda>a. \<not> is_set_controller a) rest"
    using onlyD [OF only_seq [OF later_steps_no_set_controller], of fuel env ext_int
        "mininet FaucetTopo_init" ?s2]
    by blast
  have no: "\<not> list_ex is_set_controller rest"
    using rest(2) by (simp add: list_all_iff list_ex_iff)
  have "\<not> list_ex is_poll ?first"
    by (simp add: is_poll_def polling_steps_def wait_defs)
  then have ab: "all_before is_set_controller is_poll (?first @ rest)"
    unfolding all_before_append
    using no by (simp add: all_before_no_first all_before_no_second)
  have eq: "actions (state_of (run_with ext_int mininet fuel env w)) = ?first @ rest"
    by (simp only: run rest(1) s2)
  have polled: "list_ex is_poll rest"
  proof -
    let ?B' = "[wait_connected fuel env, check_dnsmasq fuel env,
      wait_lease ''h1'' fuel env, wait_lease ''h2'' fuel env,
      straight (nat_setup ext_int env), straight (perform env CLI),
      straight (teardown ext_int (mininet FaucetTopo_init) env)]"
    have "list_all (only (\<lambda>a. True)) ?B'"
      by (simp add: wait_defs only_wait_for only_nat_setup only_straight_perform only_teardown)
    then obtain zs where zs: "actions (state_of (seq (check_faucet fuel env # ?B') ?s2)) =
        actions (state_of (check_faucet fuel env ?s2)) @ zs"
      using seq_Cons_extends by blast
    obtain k fin where "actions (state_of (check_faucet fuel env ?s2)) =
        actions ?s2 @ Info ''*** Checking Faucet status'' #
          (concat (replicate k (probe faucet_poll # body faucet_poll)) @ [probe faucet_poll]) @ fin"
      unfolding check_faucet_def
      using actions_wait_for [of fuel "''*** Checking Faucet status''" faucet_poll
          "''...running'' @ nl" env ?s2]
      by blast
    then have "rest = Info ''*** Checking Faucet status'' #
          (concat (replicate k (probe faucet_poll # body faucet_poll)) @ [probe faucet_poll]) @
          fin @ zs"
      using zs rest(1) by simp
    then have "probe faucet_poll \<in> set rest"
      by simp
    moreover have "is_poll (probe faucet_poll)"
      by (simp add: is_poll_def polling_steps_def)
    ultimately show ?thesis
      unfolding list_ex_iff by blast
  qed
  have "all_before is_set_controller is_poll
      (actions (state_of (run_with ext_int mininet fuel env w)))"
    by (simp only: eq ab)
  with eq no polled show ?thesis
    by (intro exI [of _ rest] conjI)
qed

text \<open>
  C6. In every execution that completes, the teardown actions are, in this order: the
  removal of the external interface from \<open>nat\<close>, the stop of every link of the network,
  for every host of the network its stop with \<^verbatim>\<open>deleteIntfs=True\<close> followed by its
  termination, and the stop of the network, which is the last action of all. All of it
  comes after the interactive session.
\<close>

theorem teardown_order:
  assumes "run_with ext_int mininet fuel env w = Finished s"
  shows "filter is_teardown (actions s) =
           DelIntf ''nat'' ext_int # map LinkStop (net_links (mininet FaucetTopo_init)) @
             concat (map (\<lambda>h. [HostStop h True, HostTerminate h])
               (net_hosts (mininet FaucetTopo_init))) @ [NetStop] \<and>
         all_before is_del_intf is_link_stop (actions s) \<and>
         all_before is_link_stop is_host_stop (actions s) \<and>
         all_before is_host_stop (\<lambda>a. a = NetStop) (actions s) \<and>
         all_before (\<lambda>a. a = CLI) is_teardown (actions s) \<and>
         CLI \<in> set (actions s) \<and>
         last (actions s) = NetStop"
proof -
  let ?s0 = "\<lparr>world = w, trace = []\<rparr>"
  let ?nt = "mininet FaucetTopo_init"
  let ?A = "[straight (start_network env), straight (set_controllers env),
      check_faucet fuel env, wait_connected fuel env, check_dnsmasq fuel env,
      wait_lease ''h1'' fuel env, wait_lease ''h2'' fuel env,
      straight (nat_setup ext_int env)]"
  let ?td = "[DelIntf ''nat'' ext_int,
        Info (''*** Stopping '' @ str_of_nat (length (net_links ?nt)) @ '' links:'')] @
       concat (map (\<lambda>l. [Info ''.'', LinkStop l]) (net_links ?nt)) @
       [Info nl,
        Info (''*** Stopping '' @ str_of_nat (length (net_hosts ?nt)) @ '' hosts: '')] @
       concat (map (\<lambda>h. [Info (h @ '' ''), HostStop h True, HostTerminate h]) (net_hosts ?nt)) @
       [Info (''...done'' @ nl), NetStop]"
  let ?seq = "DelIntf ''nat'' ext_int # map LinkStop (net_links ?nt) @
             concat (map (\<lambda>h. [HostStop h True, HostTerminate h]) (net_hosts ?nt)) @ [NetStop]"
  have "seq ((?A @ [straight (perform env CLI)]) @ [straight (teardown ext_int ?nt env)]) ?s0
          = Finished s"
    using assms by (simp add: run_with_def)
  then obtain s2 where s2: "seq (?A @ [straight (perform env CLI)]) ?s0 = Finished s2"
      and s: "s = teardown ext_int ?nt env s2"
    by (rule seq_snoc_Finished)
  from s2 obtain s1 where s1: "seq ?A ?s0 = Finished s1" and s21: "s2 = perform env CLI s1"
    by (rule seq_snoc_Finished)
  have "list_all (only (\<lambda>a. \<not> is_teardown a)) ?A"
    using earlier_steps_no_teardown [of env fuel ext_int] by simp
  then obtain pre where pre: "actions (state_of (seq ?A ?s0)) = actions ?s0 @ pre"
      "list_all (\<lambda>a. \<not> is_teardown a) pre"
    using onlyD [OF only_seq, of _ ?A ?s0] by blast
  have a1: "actions s1 = pre"
    using pre(1) s1 by (simp add: actions_initial)
  have tr: "actions s = (pre @ [CLI]) @ ?td"
    unfolding s s21 actions_teardown actions_perform a1 by simp
  have nopre: "filter is_teardown (pre @ [CLI]) = []"
    using pre(2) by (simp add: list_all_iff)
  have "filter is_teardown (actions s) =
          filter is_teardown (pre @ [CLI]) @ filter is_teardown ?td"
    unfolding tr by (rule filter_append)
  then have flt: "filter is_teardown (actions s) = ?seq"
    by (simp only: nopre filter_teardown_actions append_Nil)
  have ord: "all_before is_del_intf is_link_stop (actions s) \<and>
         all_before is_link_stop is_host_stop (actions s) \<and>
         all_before is_host_stop (\<lambda>a. a = NetStop) (actions s)"
  proof -
    have "all_before is_del_intf is_link_stop (filter is_teardown (actions s)) \<and>
         all_before is_link_stop is_host_stop (filter is_teardown (actions s)) \<and>
         all_before is_host_stop (\<lambda>a. a = NetStop) (filter is_teardown (actions s))"
      unfolding flt by (rule teardown_sequence_ordered)
    moreover have "is_del_intf x \<Longrightarrow> is_teardown x" "is_link_stop x \<Longrightarrow> is_teardown x"
      "is_host_stop x \<Longrightarrow> is_teardown x" "x = NetStop \<Longrightarrow> is_teardown x" for x
      by (cases x; simp)+
    ultimately show ?thesis
      by (simp add: all_before_filter)
  qed
  have "\<not> list_ex (\<lambda>a. a = CLI) ?td"
    by (simp add: list_ex_iff)
  moreover have "\<not> list_ex is_teardown (pre @ [CLI])"
    using nopre by (simp add: list_ex_iff filter_empty_conv)
  ultimately have cli: "all_before (\<lambda>a. a = CLI) is_teardown (actions s)"
    unfolding tr all_before_append
    by (simp add: all_before_no_first all_before_no_second)
  have "CLI \<in> set (actions s)" "last (actions s) = NetStop"
    unfolding tr by simp_all
  with flt ord cli show ?thesis
    by (intro conjI) simp_all
qed

text \<open>
  An execution that completes: every command answers with all markers.
\<close>

theorem teardown_order_witness:
  "is_Finished (run Mininet_build 0 (answering all_ready) ()) \<and>
   filter is_teardown (actions (state_of (run Mininet_build 0 (answering all_ready) ()))) =
     [DelIntf ''nat'' ''enp0s9'',
      LinkStop \<lparr>node1 = ''sw1'', node2 = ''h1'', intfName1 = Some ''port-1'', intfName2 = Some ''eth0''\<rparr>,
      LinkStop \<lparr>node1 = ''sw1'', node2 = ''h2'', intfName1 = Some ''port-2'', intfName2 = Some ''eth0''\<rparr>,
      LinkStop \<lparr>node1 = ''sw1'', node2 = ''sw2'', intfName1 = Some ''port-3'', intfName2 = Some ''eth1''\<rparr>,
      LinkStop \<lparr>node1 = ''sw1'', node2 = ''faucet'', intfName1 = Some ''port-4'', intfName2 = Some ''eth4''\<rparr>,
      LinkStop \<lparr>node1 = ''sw2'', node2 = ''dhcp'', intfName1 = Some ''int2'', intfName2 = Some ''dhcp-eth0''\<rparr>,
      LinkStop \<lparr>node1 = ''sw2'', node2 = ''nat'', intfName1 = Some ''int3'', intfName2 = Some ''nat-eth0''\<rparr>,
      LinkStop \<lparr>node1 = ''sw2'', node2 = ''ids'', intfName1 = Some ''int4'', intfName2 = Some ''ids-eth0''\<rparr>,
      LinkStop \<lparr>node1 = ''faucet'', node2 = ''sw2'', intfName1 = Some ''eth2'', intfName2 = Some ''eth0''\<rparr>,
      HostStop ''faucet'' True, HostTerminate ''faucet'',
      HostStop ''dhcp'' True, HostTerminate ''dhcp'',
      HostStop ''nat'' True, HostTerminate ''nat'',
      HostStop ''ids'' True, HostTerminate ''ids'',
      HostStop ''h1'' True, HostTerminate ''h1'',
      HostStop ''h2'' True, HostTerminate ''h2'',
      NetStop] \<and>
   last (actions (state_of (run Mininet_build 0 (answering all_ready) ()))) = NetStop"
proof -
  have fin: "is_Finished (run Mininet_build 0 (answering all_ready) ())"
    unfolding run_def by (rule run_all_ready_finishes)
  then have "run_with EXT_INT Mininet_build 0 (answering all_ready) () =
      Finished (state_of (run Mininet_build 0 (answering all_ready) ()))"
    unfolding run_def by (rule Finished_state_of)
  from teardown_order [OF this] fin show ?thesis
    by (simp add: Mininet_build_def FaucetTopo_nodes FaucetTopo_links EXT_INT_def)
qed

section \<open>The provisioning sequence: the polling loops\<close>

text \<open>
  C4. For each of the five polling steps: if no poll of the loop ever shows the marker,
  then for every number \<open>n\<close> the loop has performed \<open>n\<close> rounds (a poll and the body
  each) and one more poll and is still running; if the environment never answers the
  probe with the marker, \<^verbatim>\<open>run\<close> does not complete, whatever the number of rounds
  allowed; and the loop exits right after the first poll that shows the marker.
\<close>

theorem polling_loops_unbounded:
  assumes "p \<in> set polling_steps"
  shows "((\<forall>k. \<not> py_in (marker p) (observation env p k s)) \<longrightarrow>
            (\<forall>n. while_not_in n env p s = Exhausted (after_poll env p n s) \<and>
                 actions (after_poll env p n s) =
                   actions s @ concat (replicate n (probe p # body p)) @ [probe p])) \<and>
         ((\<forall>w'. \<not> py_in (marker p) (fst (env w' (probe p)))) \<longrightarrow>
            (\<forall>n. \<not> is_Finished (run_with ext_int mininet n env w))) \<and>
         (\<forall>k n. k \<le> n \<and> py_in (marker p) (observation env p k s) \<and>
                (\<forall>j<k. \<not> py_in (marker p) (observation env p j s)) \<longrightarrow>
                while_not_in n env p s = Finished (after_poll env p k s))"
proof (intro conjI impI allI)
  fix n
  assume "\<forall>k. \<not> py_in (marker p) (observation env p k s)"
  then show "while_not_in n env p s = Exhausted (after_poll env p n s)"
    by (intro while_never) simp
  show "actions (after_poll env p n s) =
          actions s @ concat (replicate n (probe p # body p)) @ [probe p]"
    by (rule actions_after_poll)
next
  fix n
  assume never: "\<forall>w'. \<not> py_in (marker p) (fst (env w' (probe p)))"
  show "\<not> is_Finished (run_with ext_int mininet n env w)"
  proof
    assume "is_Finished (run_with ext_int mininet n env w)"
    then have "run_with ext_int mininet n env w =
        Finished (state_of (run_with ext_int mininet n env w))"
      by (rule Finished_state_of)
    from run_Finished_markers [OF this assms] never show False by blast
  qed
next
  fix k n
  assume "k \<le> n \<and> py_in (marker p) (observation env p k s) \<and>
                (\<forall>j<k. \<not> py_in (marker p) (observation env p j s))"
  then show "while_not_in n env p s = Finished (after_poll env p k s)"
    by (intro while_first) simp_all
qed

text \<open>
  The controller-service loop: never finished when every answer is empty, and finished
  after the second poll in the environment whose second answer shows the marker.
\<close>

theorem polling_loops_unbounded_witness:
  "faucet_poll \<in> set polling_steps \<and>
   (\<forall>n. while_not_in n (answering []) faucet_poll \<lparr>world = (), trace = []\<rparr> =
          Exhausted (after_poll (answering []) faucet_poll n \<lparr>world = (), trace = []\<rparr>)) \<and>
   (\<forall>n. length (actions (after_poll (answering []) faucet_poll n \<lparr>world = (), trace = []\<rparr>))
          = 4 * n + 1) \<and>
   (\<forall>n. \<not> is_Finished (run Mininet_build n (answering []) ())) \<and>
   while_not_in 5 flaky faucet_poll \<lparr>world = 0, trace = []\<rparr> =
     Finished (after_poll flaky faucet_poll 1 \<lparr>world = 0, trace = []\<rparr>) \<and>
   actions (after_poll flaky faucet_poll 1 \<lparr>world = 0, trace = []\<rparr>) =
     [QuietRun ''service faucet status'', Sleep 1, Info ''.'', QuietRun ''service faucet start'',
      QuietRun ''service faucet status'']"
proof -
  let ?u = "\<lparr>world = (), trace = []\<rparr> :: unit state"
  let ?z = "\<lparr>world = 0, trace = []\<rparr> :: nat state"
  have mem: "faucet_poll \<in> set polling_steps"
    by (simp add: polling_steps_def)
  have cmd: "is_command (probe faucet_poll)"
    by (simp add: faucet_poll_def)
  have never: "\<forall>k. \<not> py_in (marker faucet_poll) (observation (answering []) faucet_poll k ?u)"
  proof -
    have "marker faucet_poll = ''(running)''" by (simp add: faucet_poll_def)
    then show ?thesis by (simp add: observation_answering [OF cmd])
  qed
  have silent: "\<forall>w'. \<not> py_in (marker faucet_poll) (fst (answering [] w' (probe faucet_poll)))"
    by (simp add: answering_def faucet_poll_def)
  have o0: "observation flaky faucet_poll 0 ?z = []"
    by (simp add: observation_def exec_def flaky_def is_poll_def polling_steps_def faucet_poll_def)
  have o1: "observation flaky faucet_poll (Suc 0) ?z = all_ready"
    by (simp add: observation_def exec_def perform_def flaky_def is_poll_def polling_steps_def
        wait_defs)
  have first: "1 \<le> (5::nat) \<and> py_in (marker faucet_poll) (observation flaky faucet_poll 1 ?z) \<and>
      (\<forall>j<1. \<not> py_in (marker faucet_poll) (observation flaky faucet_poll j ?z))"
  proof -
    have "marker faucet_poll = ''(running)''" by (simp add: faucet_poll_def)
    then show ?thesis by (simp add: o0 o1 all_ready_def)
  qed
  note thm1 = polling_loops_unbounded [OF mem, where env = "answering []" and s = ?u
      and ext_int = EXT_INT and mininet = Mininet_build and w = "()"]
  note thm2 = polling_loops_unbounded [OF mem, where env = flaky and s = ?z
      and ext_int = EXT_INT and mininet = Mininet_build and w = 0]
  have a: "\<forall>n. while_not_in n (answering []) faucet_poll ?u =
            Exhausted (after_poll (answering []) faucet_poll n ?u) \<and>
          actions (after_poll (answering []) faucet_poll n ?u) =
            actions ?u @ concat (replicate n (probe faucet_poll # body faucet_poll)) @
              [probe faucet_poll]"
    using thm1 never by blast
  have b: "\<forall>n. \<not> is_Finished (run Mininet_build n (answering []) ())"
    using thm1 silent unfolding run_def by blast
  have c: "while_not_in 5 flaky faucet_poll ?z = Finished (after_poll flaky faucet_poll 1 ?z)"
    using thm2 first by blast
  have len: "length (actions (after_poll (answering []) faucet_poll n ?u)) = 4 * n + 1" for n
    using a by (simp add: actions_initial length_concat faucet_poll_def sum_list_replicate)
  have d: "actions (after_poll flaky faucet_poll 1 ?z) =
     [QuietRun ''service faucet status'', Sleep 1, Info ''.'', QuietRun ''service faucet start'',
      QuietRun ''service faucet status'']"
    by (simp add: actions_after_poll actions_initial faucet_poll_def)
  from mem a b c d len show ?thesis by blast
qed

text \<open>
  C2 (amended). For the controller-service check, the DHCP-server check and the two host
  lease waits: the body of the loop is a sleep, a log dot and the step's command; in every
  execution of \<^verbatim>\<open>run\<close> the command is issued between any poll and the next poll of the
  same step; and the actions of the loop are rounds of poll and body, then a last poll.
\<close>

theorem unmet_poll_reissues_action:
  assumes "(p, a) \<in> set retrying_steps"
  shows "retried_between (probe p) (\<lambda>x. x = a)
           (actions (state_of (run_with ext_int mininet fuel env w))) \<and>
         (\<exists>d. body p = [Sleep d, Info ''.'', a]) \<and>
         (\<exists>k\<le>fuel. actions (state_of (while_not_in fuel env p s)) =
            actions s @ concat (replicate k (probe p # body p)) @ [probe p])"
proof -
  consider "p = faucet_poll" "a = QuietRun ''service faucet start''"
    | "p = dnsmasq_poll" "a = NodeCmd ''dhcp'' ''/usr/sbin/dnsmasq''"
    | "p = lease_poll ''h1''" "a = NodeCmd ''h1'' ''/sbin/udhcpc -nq -t 3 -i eth0''"
    | "p = lease_poll ''h2''" "a = NodeCmd ''h2'' ''/sbin/udhcpc -nq -t 3 -i eth0''"
    using assms by (auto simp: retrying_steps_def)
  then have "retried_between (probe p) (\<lambda>x. x = a)
           (actions (state_of (run_with ext_int mininet fuel env w))) \<and>
         (\<exists>d. body p = [Sleep d, Info ''.'', a])"
  proof cases
    case 1
    show ?thesis unfolding 1 using retried_faucet by (simp add: faucet_poll_def)
  next
    case 2
    show ?thesis unfolding 2 using retried_dnsmasq by (simp add: dnsmasq_poll_def)
  next
    case 3
    show ?thesis unfolding 3 using retried_h1 by (simp add: lease_poll_def)
  next
    case 4
    show ?thesis unfolding 4 using retried_h2 by (simp add: lease_poll_def)
  qed
  then show ?thesis using actions_while [of fuel env p s] by blast
qed

text \<open>
  In the same execution the controller service is started between the two polls of its
  status.
\<close>

theorem unmet_poll_reissues_action_witness:
  "(faucet_poll, QuietRun ''service faucet start'') \<in> set retrying_steps \<and>
   retried_between (QuietRun ''service faucet status'') (\<lambda>x. x = QuietRun ''service faucet start'')
     (actions (state_of (run Mininet_build 1 flaky 0))) \<and>
   take 6 (drop 5 (actions (state_of (run Mininet_build 1 flaky 0)))) =
     [QuietRun ''service faucet status'', Sleep 1, Info ''.'', QuietRun ''service faucet start'',
      QuietRun ''service faucet status'', Info (''...running'' @ nl)]"
proof -
  let ?tr = "actions (state_of (run Mininet_build 1 flaky 0))"
  have mem: "(faucet_poll, QuietRun ''service faucet start'') \<in> set retrying_steps"
    by (simp add: retrying_steps_def)
  have "retried_between (probe faucet_poll) (\<lambda>x. x = QuietRun ''service faucet start'')
      (actions (state_of (run_with EXT_INT Mininet_build 1 flaky 0)))"
    by (rule unmet_poll_reissues_action [OF mem, where ext_int = EXT_INT
          and mininet = Mininet_build and fuel = 1 and env = flaky and w = 0
          and s = "\<lparr>world = 0, trace = []\<rparr>", THEN conjunct1])
  then have rb: "retried_between (QuietRun ''service faucet status'')
      (\<lambda>x. x = QuietRun ''service faucet start'') ?tr"
    by (simp add: run_def faucet_poll_def)
  have "take 6 (drop 5 (take 17 ?tr)) = take 6 (drop 5 ?tr)"
    by (simp add: drop_take)
  then have "take 6 (drop 5 ?tr) =
     [QuietRun ''service faucet status'', Sleep 1, Info ''.'', QuietRun ''service faucet start'',
      QuietRun ''service faucet status'', Info (''...running'' @ nl)]"
    using flaky_run_start by simp
  with mem rb show ?thesis by blast
qed

text \<open>
  The wait for the connection of the switches: in the execution where every loop sees
  its marker on the second poll, only a sleep and a log dot stand between the two polls
  of \<^verbatim>\<open>ovs-vsctl show\<close>; no command at all, and no controller-address assignment, is
  issued between them.
\<close>

theorem connection_wait_no_retry_counterexample:
  "is_Finished (run Mininet_build 1 flaky 0) \<and>
   take 6 (drop 11 (actions (state_of (run Mininet_build 1 flaky 0)))) =
     [Info ''*** Waiting for switch to connect to controller'',
      QuietRun ''ovs-vsctl show'', Sleep 1, Info ''.'', QuietRun ''ovs-vsctl show'',
      Info (''...connected'' @ nl)] \<and>
   \<not> retried_between (probe connected_poll) is_command
       (actions (state_of (run Mininet_build 1 flaky 0))) \<and>
   \<not> retried_between (probe connected_poll) is_set_controller
       (actions (state_of (run Mininet_build 1 flaky 0)))"
proof -
  let ?tr = "actions (state_of (run Mininet_build 1 flaky 0))"
  have fin: "is_Finished (run Mininet_build 1 flaky 0)"
    by (rule flaky_run_finishes)
  have "take 6 (drop 11 (take 17 ?tr)) = take 6 (drop 11 ?tr)"
    by (simp add: drop_take)
  then have seg: "take 6 (drop 11 ?tr) =
     [Info ''*** Waiting for switch to connect to controller'',
      QuietRun ''ovs-vsctl show'', Sleep 1, Info ''.'', QuietRun ''ovs-vsctl show'',
      Info (''...connected'' @ nl)]"
    using flaky_run_start by simp
  have no: "\<not> retried_between (probe connected_poll) is_command ?tr"
    using flaky_run_not_retried by (simp add: connected_poll_def)
  have "is_command x" if "is_set_controller x" for x
    using that by (auto simp: is_set_controller_def)
  then have "\<not> retried_between (probe connected_poll) is_set_controller ?tr"
    using no retried_between_weaker [of "probe connected_poll" is_set_controller ?tr is_command]
    by blast
  with fin seg no show ?thesis by blast
qed




section \<open>The provisioning sequence: the external interface\<close>

text \<open>
  C5. In every execution that completes, the interface created on \<open>nat\<close> is the one the
  constant names, and the only \<^verbatim>\<open>dhclient\<close> command, issued right after it and one
  sleep, is the literal \<^verbatim>\<open>/sbin/dhclient enp0s9\<close>: the \<^verbatim>\<open>dhclient\<close> command on the
  interface the constant names is issued if and only if the constant is \<open>enp0s9\<close>.
\<close>

theorem dhclient_interface_is_literal:
  assumes "run_with ext_int mininet fuel env w = Finished s"
  shows "(\<exists>pre post. actions s =
            pre @ [Intf ext_int ''nat'', Sleep 1, NodeCmd ''nat'' ''/sbin/dhclient enp0s9''] @ post \<and>
            \<not> list_ex is_attach (pre @ post) \<and> \<not> list_ex is_dhclient (pre @ post)) \<and>
         (NodeCmd ''nat'' (''/sbin/dhclient '' @ ext_int) \<in> set (actions s)
            \<longleftrightarrow> ext_int = ''enp0s9'')"
proof -
  let ?s0 = "\<lparr>world = w, trace = []\<rparr>"
  let ?R = "\<lambda>a. \<not> is_attach a \<and> \<not> is_dhclient a"
  let ?A = "[straight (start_network env), straight (set_controllers env),
      check_faucet fuel env, wait_connected fuel env, check_dnsmasq fuel env,
      wait_lease ''h1'' fuel env, wait_lease ''h2'' fuel env]"
  let ?B = "[straight (perform env CLI), straight (teardown ext_int (mininet FaucetTopo_init) env)]"
  let ?ph = "straight (nat_setup ext_int env)"
  let ?mid = "[Intf ext_int ''nat'', Sleep 1, NodeCmd ''nat'' ''/sbin/dhclient enp0s9'']"
  let ?tail = "[Info (''...done'' @ nl),
        Info ''*** Enabling IP forwarding and Masquerading on NAT NFV.. '',
        NodeCmd ''nat'' ''/sbin/ifconfig lo:1 1.1.1.1/24'',
        NodeCmd ''nat'' ''/sbin/ifconfig lo:1 1111::1/64'',
        NodeCmd ''nat''
          (''/sbin/iptables -t nat -A POSTROUTING -o '' @ ext_int @ '' -j MASQUERADE''),
        NodeCmd ''nat'' ''/sbin/sysctl -q -w net.ipv4.ip_forward=1'',
        Info (''...done'' @ nl)]"
  have run: "seq (?A @ ?ph # ?B) ?s0 = Finished s"
    using assms by (simp add: run_with_def)
  have A: "list_all (only ?R) ?A" by (rule steps_no_attach_dhclient)
  have B: "list_all (only ?R) ?B" by (rule steps_no_attach_dhclient)
  from A B have shape:
    "\<exists>pre post. actions s = pre @ ?mid @ post \<and> list_all ?R pre \<and> list_all ?R post"
  proof (cases rule: seq_sandwich [where ph = ?ph and ?s0.0 = ?s0])
    case (reached s1 pre post)
    have "actions s = actions (nat_setup ext_int env s1) @ post"
      using reached(4) run by (simp add: straight_def)
    then have "actions s =
        (pre @ [Info ''*** Moving bridged interface into the NAT NFV..'']) @ ?mid @ (?tail @ post)"
      by (simp add: actions_nat_setup reached(2) actions_initial)
    moreover have "list_all ?R (pre @ [Info ''*** Moving bridged interface into the NAT NFV..''])"
      using reached(3) by simp
    moreover have "list_all ?R (?tail @ post)"
      using reached(5) by simp
    ultimately show ?thesis by blast
  next
    case (not_reached pre)
    then show ?thesis using run by simp
  qed
  then obtain pre post where tr: "actions s = pre @ ?mid @ post"
    and pre: "list_all ?R pre" and post: "list_all ?R post"
    by blast
  have no: "\<not> list_ex is_attach (pre @ post)" "\<not> list_ex is_dhclient (pre @ post)"
    using pre post by (auto simp: list_all_iff list_ex_iff)
  have dh: "is_dhclient (NodeCmd ''nat'' (''/sbin/dhclient '' @ ext_int))"
    by simp
  have "NodeCmd ''nat'' (''/sbin/dhclient '' @ ext_int) \<notin> set (pre @ post)"
    using no(2) dh unfolding list_ex_iff by blast
  then have "NodeCmd ''nat'' (''/sbin/dhclient '' @ ext_int) \<in> set (actions s)
            \<longleftrightarrow> ext_int = ''enp0s9''"
    unfolding tr by auto
  with tr no show ?thesis by blast
qed

text \<open>
  With the constant set to \<open>eth1\<close>, \<open>eth1\<close> is attached and the lease is requested on
  \<open>enp0s9\<close>.
\<close>

theorem dhclient_interface_is_literal_witness:
  "is_Finished (run_with ''eth1'' Mininet_build 0 (answering all_ready) ()) \<and>
   Intf ''eth1'' ''nat'' \<in> set (actions (state_of (run_with ''eth1'' Mininet_build 0 (answering all_ready) ()))) \<and>
   NodeCmd ''nat'' ''/sbin/dhclient enp0s9''
     \<in> set (actions (state_of (run_with ''eth1'' Mininet_build 0 (answering all_ready) ()))) \<and>
   NodeCmd ''nat'' ''/sbin/dhclient eth1''
     \<notin> set (actions (state_of (run_with ''eth1'' Mininet_build 0 (answering all_ready) ())))"
proof -
  have fin: "is_Finished (run_with ''eth1'' Mininet_build 0 (answering all_ready) ())"
    by (rule run_all_ready_finishes)
  then have "run_with ''eth1'' Mininet_build 0 (answering all_ready) () =
      Finished (state_of (run_with ''eth1'' Mininet_build 0 (answering all_ready) ()))"
    by (rule Finished_state_of)
  from dhclient_interface_is_literal [OF this] fin show ?thesis
    by auto
qed

end
